theory Spec2Isabelle
  imports Main
begin

text \<open>
  The worker pool of the Supernote plugin (src/src/main.js, lines 53 to 138, and the three
  places that use it): \<open>WorkerPool\<close> cuts a list of page numbers into chunks, hands
  the chunks to its workers and joins their answers; \<open>ImageConverter\<close> owns one pool.
  The classes are embedded as functions on explicit state: a pool is a record, the calls
  made on \<open>Worker\<close> objects are recorded in a trace, a promise is a value that is
  resolved, rejected or never settled, and the worker script and the order in which the
  workers answer are parameters.
\<close>

section \<open>The JavaScript numbers that \<open>processPages\<close> computes with\<close>

text \<open>
  \<open>WorkerPool.processPages\<close> (src/src/main.js, lines 92 to 114) divides two array
  lengths, rounds the quotient up, and uses the result as the stride of a loop and as the
  bound of a slice. Array lengths are integers below \<open>2^32\<close>, so the only values that
  arise are non-negative integers, \<open>Infinity\<close> (a positive length divided by zero) and
  \<open>NaN\<close> (zero divided by zero, and any remainder modulo zero). On that range the
  rounded-up double quotient is the exact integer ceiling: the rounding error of the
  division is smaller than \<open>1 / b\<close>, the least distance of an inexact quotient from the
  integer below it.
\<close>

datatype jsnum = Fin nat | PosInf | NaN

text \<open>\<open>Math.ceil(a / b)\<close> for two array lengths.\<close>

definition js_ceil_div :: "nat \<Rightarrow> nat \<Rightarrow> jsnum" where
  "js_ceil_div a b =
     (if b = 0 then (if a = 0 then NaN else PosInf)
      else Fin ((a + b - 1) div b))"

text \<open>\<open>a % b\<close> for two non-negative integers: \<open>NaN\<close> when the divisor is zero.\<close>

definition js_mod :: "nat \<Rightarrow> nat \<Rightarrow> jsnum" where
  "js_mod a b = (if b = 0 then NaN else Fin (a mod b))"

text \<open>\<open>x + y\<close>: \<open>NaN\<close> absorbs, then \<open>Infinity\<close>.\<close>

fun js_add :: "jsnum \<Rightarrow> jsnum \<Rightarrow> jsnum" where
  "js_add NaN _ = NaN"
| "js_add _ NaN = NaN"
| "js_add PosInf _ = PosInf"
| "js_add _ PosInf = PosInf"
| "js_add (Fin a) (Fin b) = Fin (a + b)"

text \<open>\<open>x < y\<close>: every comparison with \<open>NaN\<close> is false.\<close>

fun js_less :: "jsnum \<Rightarrow> jsnum \<Rightarrow> bool" where
  "js_less (Fin a) (Fin b) = (a < b)"
| "js_less (Fin a) PosInf = True"
| "js_less _ _ = False"

text \<open>
  The relative index of \<open>Array.prototype.slice\<close>: \<open>NaN\<close> counts as 0, and the
  index is clamped to the length of the array.
\<close>

fun js_clamp :: "nat \<Rightarrow> jsnum \<Rightarrow> nat" where
  "js_clamp len (Fin a) = min a len"
| "js_clamp len PosInf = len"
| "js_clamp len NaN = 0"

definition js_slice :: "'a list \<Rightarrow> jsnum \<Rightarrow> jsnum \<Rightarrow> 'a list" where
  "js_slice xs start fin =
     (let k = js_clamp (length xs) start; e = js_clamp (length xs) fin
      in take (e - k) (drop k xs))"

text \<open>
  \<open>xs[j]\<close>: \<open>undefined\<close> (here \<open>None\<close>) when \<open>j\<close> is not an index of the array.
\<close>

fun js_index :: "'a list \<Rightarrow> jsnum \<Rightarrow> 'a option" where
  "js_index xs (Fin i) = (if i < length xs then Some (xs ! i) else None)"
| "js_index xs PosInf = None"
| "js_index xs NaN = None"

section \<open>The chunking step of \<open>processPages\<close>\<close>

text \<open>
  \<^verbatim>\<open>
  for (let i = 0; i < allPageNumbers.length; i += chunkSize) {
      chunks.push(allPageNumbers.slice(i, i + chunkSize));
  }
  \<close>
  The loop is written for any stride. With the stride \<open>0\<close> and a non-empty array it
  would never leave, so the loop is a partial function: \<open>None\<close> is "does not return".
\<close>

partial_function (option) chunk_loop ::
  "'a list \<Rightarrow> jsnum \<Rightarrow> jsnum \<Rightarrow> 'a list list \<Rightarrow> 'a list list option" where
  "chunk_loop allPageNumbers chunkSize i chunks =
     (if js_less i (Fin (length allPageNumbers))
      then chunk_loop allPageNumbers chunkSize (js_add i chunkSize)
             (chunks @ [js_slice allPageNumbers i (js_add i chunkSize)])
      else Some chunks)"

declare chunk_loop.simps [code]

text \<open>
  Lines 96 to 101: the stride is \<open>Math.ceil(allPageNumbers.length / this.workers.length)\<close>,
  the loop starts at \<open>0\<close> with no chunks.
\<close>

definition processPages_chunks :: "'a list \<Rightarrow> nat \<Rightarrow> 'a list list option" where
  "processPages_chunks allPageNumbers nworkers =
     chunk_loop allPageNumbers (js_ceil_div (length allPageNumbers) nworkers) (Fin 0) []"

text \<open>
  The Task Chunker in the words of the specification: contiguous slices of length
  \<open>chunkSize\<close>, the last one possibly shorter, \<open>ceil (len / chunkSize)\<close> of them.
\<close>

definition spec_chunks :: "nat \<Rightarrow> 'a list \<Rightarrow> 'a list list" where
  "spec_chunks c xs =
     map (\<lambda>k. take c (drop (k * c) xs)) [0..<(length xs + c - 1) div c]"

section \<open>Documents, workers, promises and the world\<close>

text \<open>
  The note (\<open>SupernoteX\<close>, from the parsing library) is used by the pipeline only
  through the length of \<open>note.pages\<close>; it is handed to the workers as it is.
\<close>

record 'p SupernoteX =
  pages :: "'p list"

text \<open>
  What a promise can be rejected with in this code: the \<open>TypeError\<close> of an assignment
  to a property of \<open>undefined\<close>, the \<open>new Error(e.data.error)\<close> of line 71, and
  the error event of line 79.
\<close>

datatype js_error = TypeError | Error string | ErrorEvent string

text \<open>A promise is resolved, rejected, or never settled.\<close>

datatype 'a promise = Resolved 'a | Rejected js_error | Pending

text \<open>
  The worker script (\<open>myworker.worker\<close>) is not part of the sources at hand. Its
  behaviour is a parameter \<open>respond\<close> of the model: for a worker, a note and the page
  numbers of a message, the worker either posts a \<open>SupernoteWorkerResponse\<close> (its
  optional \<open>error\<close> string and its \<open>images\<close>), or raises an error event, or
  never answers.
\<close>

datatype 'i worker_reply = Response "string option" "'i list" | Crash string | Silent

type_synonym ('p, 'i) respond = "nat \<Rightarrow> 'p SupernoteX \<Rightarrow> int list \<Rightarrow> 'i worker_reply"

text \<open>
  The calls the code makes on \<open>Worker\<close> objects, in the order it makes them, and the
  moments at which a worker is done with a message. A worker is identified by the number
  of its construction. \<open>SetHandlers wk pid\<close> stands for the two assignments
  \<open>worker.onmessage = ...\<close> and \<open>worker.onerror = ...\<close> of \<open>processChunk\<close>,
  whose closures settle the promise \<open>pid\<close>; \<open>onmessage\<close> and \<open>onerror\<close> are
  properties of the worker, so an assignment replaces the handlers that were there,
  whichever call installed them. \<open>Processed wk\<close> says that the worker has worked
  through the oldest message it had not worked through yet, and that its answer, if it
  gave one, was handled by the handlers installed on it at that moment.
\<close>

datatype 'p event =
    NewWorker nat
  | SetHandlers nat nat
  | PostMessage nat "'p SupernoteX" "int list"
  | Processed nat
  | TerminateWorker nat

record 'p world =
  next_worker :: nat
  trace :: "'p event list"

section \<open>\<open>WorkerPool\<close>\<close>

record WorkerPool =
  maxWorkers :: nat
  workers :: "nat list"

text \<open>
  Lines 56 to 60: \<open>Array(maxWorkers).fill(null).map(() => new Worker())\<close>.
\<close>

definition new_WorkerPool :: "nat \<Rightarrow> 'p world \<Rightarrow> WorkerPool \<times> 'p world" where
  "new_WorkerPool n w =
     (let ids = [next_worker w ..< next_worker w + n]
      in (\<lparr>maxWorkers = n, workers = ids\<rparr>,
          w\<lparr>next_worker := next_worker w + n, trace := trace w @ map NewWorker ids\<rparr>))"

text \<open>
  Lines 62 to 90. The executor of the promise runs at once: on \<open>undefined\<close> the first
  assignment throws and the promise is rejected with that \<open>TypeError\<close>; on a worker it
  installs the two handlers and posts the message, and the promise waits for the worker.
  \<open>pid\<close> names the promise that the handlers settle (the position of the chunk).
\<close>

datatype chunk_state = Thrown js_error | Awaiting nat

definition processChunk ::
  "nat option \<Rightarrow> 'p SupernoteX \<Rightarrow> int list \<Rightarrow> nat \<Rightarrow> 'p event list \<times> chunk_state" where
  "processChunk worker note pageNumbers pid =
     (case worker of
        None \<Rightarrow> ([], Thrown TypeError)
      | Some wk \<Rightarrow> ([SetHandlers wk pid, PostMessage wk note pageNumbers], Awaiting wk))"

text \<open>The promises whose handlers were installed on a worker, oldest first.\<close>

fun installs :: "nat \<Rightarrow> 'p event \<Rightarrow> nat list" where
  "installs wk (SetHandlers wk' pid) = (if wk' = wk then [pid] else [])"
| "installs wk _ = []"

definition installed :: "nat \<Rightarrow> 'p event list \<Rightarrow> nat list" where
  "installed wk evs = concat (map (installs wk) evs)"

text \<open>The messages posted to a worker, oldest first.\<close>

fun posts :: "nat \<Rightarrow> 'p event \<Rightarrow> ('p SupernoteX \<times> int list) list" where
  "posts wk (PostMessage wk' note pageNumbers) = (if wk' = wk then [(note, pageNumbers)] else [])"
| "posts wk _ = []"

definition inbox :: "nat \<Rightarrow> 'p event list \<Rightarrow> ('p SupernoteX \<times> int list) list" where
  "inbox wk evs = concat (map (posts wk) evs)"

text \<open>
  The messages posted to a worker that it has not worked through yet, oldest first: a
  worker works through its messages in the order in which they were posted.
\<close>

definition processed :: "nat \<Rightarrow> 'p event list \<Rightarrow> nat" where
  "processed wk evs = length (filter (\<lambda>e. e = Processed wk) evs)"

definition outstanding :: "nat \<Rightarrow> 'p event list \<Rightarrow> ('p SupernoteX \<times> int list) list" where
  "outstanding wk evs = drop (processed wk evs) (inbox wk evs)"

text \<open>
  \<open>worker.terminate()\<close> stops a worker at once: a worker that was terminated answers
  no message, neither one it had received before nor one posted to it afterwards.
\<close>

definition terminated :: "nat \<Rightarrow> 'p event list \<Rightarrow> bool" where
  "terminated wk evs = (TerminateWorker wk \<in> set evs)"

text \<open>
  The workers of a pool are idle when they are running and none of them has a message
  left to work through: every call made on the pool before has had all its messages
  answered.
\<close>

definition idle :: "nat list \<Rightarrow> 'p event list \<Rightarrow> bool" where
  "idle ws evs = list_all (\<lambda>wk. \<not> terminated wk evs \<and> outstanding wk evs = []) ws"

text \<open>The page-number lists of all messages posted, oldest first.\<close>

fun posted_pages :: "'p event list \<Rightarrow> int list list" where
  "posted_pages [] = []"
| "posted_pages (PostMessage wk note pageNumbers # evs) = pageNumbers # posted_pages evs"
| "posted_pages (_ # evs) = posted_pages evs"

text \<open>
  A worker works through its messages in order; the first thing it sends back is the
  answer to the first message it does answer, and \<open>consumed\<close> is the number of
  messages it has worked through by then.
\<close>

fun first_event :: "('p, 'i) respond \<Rightarrow> nat \<Rightarrow> ('p SupernoteX \<times> int list) list \<Rightarrow> 'i worker_reply" where
  "first_event respond wk [] = Silent"
| "first_event respond wk ((note, pageNumbers) # ms) =
     (case respond wk note pageNumbers of
        Silent \<Rightarrow> first_event respond wk ms
      | r \<Rightarrow> r)"

fun consumed :: "('p, 'i) respond \<Rightarrow> nat \<Rightarrow> ('p SupernoteX \<times> int list) list \<Rightarrow> nat" where
  "consumed respond wk [] = 0"
| "consumed respond wk ((note, pageNumbers) # ms) =
     (case respond wk note pageNumbers of
        Silent \<Rightarrow> Suc (consumed respond wk ms)
      | r \<Rightarrow> 1)"

text \<open>
  The handlers of lines 66 to 80: a response with a truthy \<open>error\<close> (a non-empty
  string) rejects, any other response resolves with its images, an error event rejects.
\<close>

fun on_reply :: "'i worker_reply \<Rightarrow> 'i list promise" where
  "on_reply (Response err images) =
     (case err of
        Some m \<Rightarrow> if m \<noteq> [] then Rejected (Error m) else Resolved images
      | None \<Rightarrow> Resolved images)"
| "on_reply (Crash m) = Rejected (ErrorEvent m)"
| "on_reply Silent = Pending"

text \<open>
  How the promise \<open>pid\<close> of a chunk settles. \<open>prior\<close> is the trace when the call
  starts, \<open>evs\<close> are the calls that the dispatch of the call makes, and \<open>later\<close> are
  the calls that are made on the workers after the dispatch and before any answer is
  handled (a second \<open>processPages\<close>, or \<open>terminate\<close>, called while the first
  \<open>processPages\<close> is waiting). All the messages are posted before any answer is
  handled, so every answer of a worker goes to the handlers installed last on it, and
  only the first answer settles their promise. That first answer is the answer to the
  oldest message the worker has not worked through: a message of an earlier call, when
  one is still outstanding. A promise whose handlers were replaced, by a later chunk of
  the call or by a later call, never settles, and neither does a promise whose worker
  was terminated.
\<close>

definition settle ::
  "('p, 'i) respond \<Rightarrow> 'p event list \<Rightarrow> 'p event list \<Rightarrow> 'p event list \<Rightarrow> nat \<Rightarrow> chunk_state
     \<Rightarrow> 'i list promise" where
  "settle respond prior evs later pid st =
     (case st of
        Thrown e \<Rightarrow> Rejected e
      | Awaiting wk \<Rightarrow>
          if installed wk evs \<noteq> [] \<and> last (installed wk evs) = pid \<and> installed wk later = []
             \<and> \<not> terminated wk (prior @ later)
          then on_reply (first_event respond wk (outstanding wk prior @ inbox wk evs))
          else Pending)"

text \<open>
  The messages that the worker of chunk \<open>pid\<close> has worked through when the promise of
  the chunk is settled by its answer.
\<close>

definition worked ::
  "('p, 'i) respond \<Rightarrow> 'p event list \<Rightarrow> 'p event list \<Rightarrow> nat \<Rightarrow> chunk_state \<Rightarrow> 'p event list" where
  "worked respond prior evs pid st =
     (case st of
        Thrown e \<Rightarrow> []
      | Awaiting wk \<Rightarrow>
          if installed wk evs \<noteq> [] \<and> last (installed wk evs) = pid \<and> \<not> terminated wk prior
          then replicate (consumed respond wk (outstanding wk prior @ inbox wk evs)) (Processed wk)
          else [])"

text \<open>
  \<open>Promise.all\<close>: rejected with the reason of the promise that is rejected first,
  resolved with all the values in the order of the promises when all are resolved, not
  settled otherwise. Which rejection comes first depends on the order in which the
  workers answer; \<open>sched\<close> lists positions in that order (positions it leaves out
  follow in the order of the array).
\<close>

fun rejection :: "'a promise \<Rightarrow> js_error list" where
  "rejection (Rejected e) = [e]"
| "rejection _ = []"

fun all_resolved :: "'a promise list \<Rightarrow> 'a list option" where
  "all_resolved [] = Some []"
| "all_resolved (Resolved v # ps) = map_option ((#) v) (all_resolved ps)"
| "all_resolved (_ # ps) = None"

definition promise_all :: "nat list \<Rightarrow> 'a promise list \<Rightarrow> 'a list promise" where
  "promise_all sched ps =
     (case concat (map (\<lambda>k. rejection (ps ! k))
                   (filter (\<lambda>k. k < length ps) sched @ [0..<length ps])) of
        e # _ \<Rightarrow> Rejected e
      | [] \<Rightarrow> (case all_resolved ps of Some vs \<Rightarrow> Resolved vs | None \<Rightarrow> Pending))"

text \<open>
  The positions whose answers have been handled when \<open>Promise.all\<close> settles: the
  promises settle in the order \<open>ks\<close>, and the first rejection settles
  \<open>Promise.all\<close>; the answers to the remaining chunks are still to come then.
\<close>

fun handled :: "'a promise list \<Rightarrow> nat list \<Rightarrow> nat list" where
  "handled ps [] = []"
| "handled ps (k # ks) =
     (case ps ! k of
        Rejected e \<Rightarrow> [k]
      | _ \<Rightarrow> k # handled ps ks)"

text \<open>
  Lines 107 to 109: \<open>chunks.map((chunk, index) => this.processChunk(
  this.workers[index % this.workers.length], note, chunk))\<close>. The executors run one
  after the other, in the order of the chunks.
\<close>

definition dispatch ::
  "nat list \<Rightarrow> 'p SupernoteX \<Rightarrow> int list list \<Rightarrow> ('p event list \<times> chunk_state) list" where
  "dispatch ws note chunks =
     map (\<lambda>(index, chunk).
            processChunk (js_index ws (js_mod index (length ws))) note chunk index)
         (enumerate 0 chunks)"

text \<open>
  Lines 92 to 114. The chunks are cut and dispatched; \<open>await Promise.all\<close> then waits
  for the promises, and \<open>results.flat()\<close> concatenates their values. The world gains
  the calls made on the workers and the messages that the workers have worked through
  when \<open>Promise.all\<close> settles. The call is followed from its dispatch to its end with
  no other call made on the pool in between, in a world \<open>w\<close> in which earlier calls may
  have left messages outstanding.
\<close>

definition processPages ::
  "('p, 'i) respond \<Rightarrow> nat list \<Rightarrow> WorkerPool \<Rightarrow> 'p SupernoteX \<Rightarrow> int list \<Rightarrow> 'p world
     \<Rightarrow> 'i list promise \<times> 'p world" where
  "processPages respond sched pool note allPageNumbers w =
     (case processPages_chunks allPageNumbers (length (workers pool)) of
        None \<Rightarrow> (Pending, w)
      | Some chunks \<Rightarrow>
          let started = dispatch (workers pool) note chunks;
              evs = concat (map fst started);
              promises =
                map (\<lambda>(index, st). settle respond (trace w) evs [] index st)
                    (enumerate 0 (map snd started));
              results = promise_all sched promises;
              answered =
                remdups (handled promises
                           (filter (\<lambda>k. k < length promises) sched @ [0..<length promises]));
              finished =
                concat (map (\<lambda>k. worked respond (trace w) evs k (map snd started ! k)) answered)
          in (map_promise concat results, w\<lparr>trace := trace w @ evs @ finished\<rparr>))"

text \<open>
  An \<open>async\<close> function runs up to its first \<open>await\<close> when it is called: right after
  the call expression \<open>pool.processPages(note, pages)\<close>, before anything is awaited,
  the chunks have been dispatched and no answer has been handled.
\<close>

definition processPages_started :: "WorkerPool \<Rightarrow> 'p SupernoteX \<Rightarrow> int list \<Rightarrow> 'p world \<Rightarrow> 'p world" where
  "processPages_started pool note allPageNumbers w =
     (case processPages_chunks allPageNumbers (length (workers pool)) of
        None \<Rightarrow> w
      | Some chunks \<Rightarrow>
          w\<lparr>trace := trace w @ concat (map fst (dispatch (workers pool) note chunks))\<rparr>)"

text \<open>
  The outcome of a call that is overtaken: after its dispatch in the world \<open>w\<close>, and
  before any answer is handled, the calls \<open>later\<close> are made on the workers.
\<close>

definition processPages_overtaken ::
  "('p, 'i) respond \<Rightarrow> nat list \<Rightarrow> WorkerPool \<Rightarrow> 'p SupernoteX \<Rightarrow> int list \<Rightarrow> 'p world
     \<Rightarrow> 'p event list \<Rightarrow> 'i list promise" where
  "processPages_overtaken respond sched pool note allPageNumbers w later =
     (case processPages_chunks allPageNumbers (length (workers pool)) of
        None \<Rightarrow> Pending
      | Some chunks \<Rightarrow>
          let started = dispatch (workers pool) note chunks;
              evs = concat (map fst started);
              promises =
                map (\<lambda>(index, st). settle respond (trace w) evs later index st)
                    (enumerate 0 (map snd started))
          in map_promise concat (promise_all sched promises))"

text \<open>Lines 116 to 119.\<close>

definition WorkerPool_terminate :: "WorkerPool \<Rightarrow> 'p world \<Rightarrow> WorkerPool \<times> 'p world" where
  "WorkerPool_terminate pool w =
     (pool\<lparr>workers := []\<rparr>, w\<lparr>trace := trace w @ map TerminateWorker (workers pool)\<rparr>)"

section \<open>\<open>ImageConverter\<close> and its call sites\<close>

record ImageConverter =
  workerPool :: WorkerPool

definition new_ImageConverter :: "nat \<Rightarrow> 'p world \<Rightarrow> ImageConverter \<times> 'p world" where
  "new_ImageConverter n w =
     (let (pool, w') = new_WorkerPool n w in (\<lparr>workerPool = pool\<rparr>, w'))"

text \<open>
  Line 130: \<open>pageNumbers ?? Array.from({length: note.pages.length}, (_, i) => i+1)\<close>.
\<close>

definition requested_pages :: "'p SupernoteX \<Rightarrow> int list option \<Rightarrow> int list" where
  "requested_pages note pageNumbers =
     (case pageNumbers of
        Some pns \<Rightarrow> pns
      | None \<Rightarrow> map (\<lambda>i. int i + 1) [0..<length (pages note)])"

definition convertToImages ::
  "('p, 'i) respond \<Rightarrow> nat list \<Rightarrow> ImageConverter \<Rightarrow> 'p SupernoteX \<Rightarrow> int list option \<Rightarrow> 'p world
     \<Rightarrow> 'i list promise \<times> 'p world" where
  "convertToImages respond sched conv note pageNumbers w =
     processPages respond sched (workerPool conv) note (requested_pages note pageNumbers) w"

text \<open>The world right after the call expression \<open>converter.convertToImages(...)\<close>.\<close>

definition convertToImages_started ::
  "ImageConverter \<Rightarrow> 'p SupernoteX \<Rightarrow> int list option \<Rightarrow> 'p world \<Rightarrow> 'p world" where
  "convertToImages_started conv note pageNumbers w =
     processPages_started (workerPool conv) note (requested_pages note pageNumbers) w"

text \<open>The outcome of a call of \<open>convertToImages\<close> that is overtaken.\<close>

definition convertToImages_overtaken ::
  "('p, 'i) respond \<Rightarrow> nat list \<Rightarrow> ImageConverter \<Rightarrow> 'p SupernoteX \<Rightarrow> int list option \<Rightarrow> 'p world
     \<Rightarrow> 'p event list \<Rightarrow> 'i list promise" where
  "convertToImages_overtaken respond sched conv note pageNumbers w later =
     processPages_overtaken respond sched (workerPool conv) note
       (requested_pages note pageNumbers) w later"

definition ImageConverter_terminate :: "ImageConverter \<Rightarrow> 'p world \<Rightarrow> ImageConverter \<times> 'p world" where
  "ImageConverter_terminate conv w =
     (let (pool, w') = WorkerPool_terminate (workerPool conv) w
      in (conv\<lparr>workerPool := pool\<rparr>, w'))"

text \<open>
  Lines 182 to 190 of \<open>VaultWriter.writeImageFiles\<close> (lines 228 to 234 of
  \<open>exportToPDF\<close> and 289 to 297 of \<open>onLoadFile\<close> are the same block):
  \<^verbatim>\<open>
  const converter = new ImageConverter();
  try { images = await converter.convertToImages(sn); }
  finally { converter.terminate(); }
  \<close>
  \<open>hardwareConcurrency\<close> is the default \<open>maxWorkers\<close>. When the awaited promise never
  settles, the function never resumes and the \<open>finally\<close> block is not reached. The
  result is the outcome of the \<open>await\<close>; what the function does with the images
  afterwards is host I/O.
\<close>

definition writeImageFiles_convert ::
  "('p, 'i) respond \<Rightarrow> nat list \<Rightarrow> nat \<Rightarrow> 'p SupernoteX \<Rightarrow> 'p world \<Rightarrow> 'i list promise \<times> 'p world" where
  "writeImageFiles_convert respond sched hardwareConcurrency sn w =
     (let (converter, w1) = new_ImageConverter hardwareConcurrency w;
          (images, w2) = convertToImages respond sched converter sn None w1
      in case images of
           Pending \<Rightarrow> (Pending, w2)
         | _ \<Rightarrow> (images, snd (ImageConverter_terminate converter w2)))"

text \<open>
  The same block in \<open>VaultWriter.exportToPDF\<close> (lines 228 to 234) and in
  \<open>SupernoteView.onLoadFile\<close> (lines 289 to 297).
\<close>

definition exportToPDF_convert ::
  "('p, 'i) respond \<Rightarrow> nat list \<Rightarrow> nat \<Rightarrow> 'p SupernoteX \<Rightarrow> 'p world \<Rightarrow> 'i list promise \<times> 'p world" where
  "exportToPDF_convert respond sched hardwareConcurrency sn w =
     (let (converter, w1) = new_ImageConverter hardwareConcurrency w;
          (images, w2) = convertToImages respond sched converter sn None w1
      in case images of
           Pending \<Rightarrow> (Pending, w2)
         | _ \<Rightarrow> (images, snd (ImageConverter_terminate converter w2)))"

definition onLoadFile_convert ::
  "('p, 'i) respond \<Rightarrow> nat list \<Rightarrow> nat \<Rightarrow> 'p SupernoteX \<Rightarrow> 'p world \<Rightarrow> 'i list promise \<times> 'p world" where
  "onLoadFile_convert respond sched hardwareConcurrency sn w =
     (let (converter, w1) = new_ImageConverter hardwareConcurrency w;
          (images, w2) = convertToImages respond sched converter sn None w1
      in case images of
           Pending \<Rightarrow> (Pending, w2)
         | _ \<Rightarrow> (images, snd (ImageConverter_terminate converter w2)))"

text \<open>
  The calls that begin and end the life of a worker, as opposed to the calls that give
  it work.
\<close>

fun lifecycle :: "'p event \<Rightarrow> bool" where
  "lifecycle (NewWorker wk) = True"
| "lifecycle (TerminateWorker wk) = True"
| "lifecycle _ = False"

section \<open>Concrete inputs\<close>

text \<open>
  A world in which no worker was constructed yet, notes of \<open>n\<close> pages without
  content, and a worker script that renders page \<open>p\<close> as the number \<open>10 * p\<close>
  whatever the page number is.
\<close>

definition empty_world :: "unit world" where
  "empty_world = \<lparr>next_worker = 0, trace = []\<rparr>"

definition note_of :: "nat \<Rightarrow> unit SupernoteX" where
  "note_of n = \<lparr>pages = replicate n ()\<rparr>"

definition tenfold :: "(unit, int) respond" where
  "tenfold wk note pageNumbers = Response None (map (\<lambda>p. 10 * p) pageNumbers)"

text \<open>The same script, except that it reports an error for a chunk that holds page \<open>bad\<close>.\<close>

definition failing_on :: "int \<Rightarrow> (unit, int) respond" where
  "failing_on bad wk note pageNumbers =
     (if bad \<in> set pageNumbers then Response (Some ''cannot render'') []
      else tenfold wk note pageNumbers)"

text \<open>A script that answers every message with the same two images.\<close>

definition two_images :: "(unit, int) respond" where
  "two_images wk note pageNumbers = Response None [99, 99]"

section \<open>Properties of the chunking step\<close>

lemma js_slice_Fin:
  "i \<le> length xs \<Longrightarrow> js_slice xs (Fin i) (Fin (i + c)) = take c (drop i xs)"
  by (simp add: js_slice_def Let_def min_def)

lemma ceil_div_gt_iff:
  assumes "0 < c"
  shows "j < (n + c - 1) div c \<longleftrightarrow> j * c < (n::nat)"
proof
  assume "j < (n + c - 1) div c"
  then have "Suc j \<le> (n + c - 1) div c" by simp
  then have "Suc j * c \<le> ((n + c - 1) div c) * c" by (rule mult_le_mono1)
  also have "\<dots> \<le> n + c - 1" by simp
  finally show "j * c < n" using assms by simp
next
  assume "j * c < n"
  then have "j * c + c \<le> n + c - 1" using assms by simp
  then have "(j * c + c) div c \<le> (n + c - 1) div c" by (rule div_le_mono)
  then show "j < (n + c - 1) div c" using assms by simp
qed

lemma chunk_loop_Fin:
  assumes "0 < c" and "j \<le> (length xs + c - 1) div c"
  shows "chunk_loop xs (Fin c) (Fin (j * c))
           (map (\<lambda>k. take c (drop (k * c) xs)) [0..<j]) = Some (spec_chunks c xs)"
  using assms(2)
proof (induction "(length xs + c - 1) div c - j" arbitrary: j)
  case 0
  then have j: "j = (length xs + c - 1) div c" by simp
  then have "\<not> j * c < length xs"
    using ceil_div_gt_iff [OF assms(1), of j "length xs"] by simp
  then show ?case
    by (subst chunk_loop.simps) (simp add: spec_chunks_def j)
next
  case (Suc d)
  then have lt: "j < (length xs + c - 1) div c" by simp
  then have jc: "j * c < length xs"
    using ceil_div_gt_iff [OF assms(1), of j "length xs"] by simp
  have step: "chunk_loop xs (Fin c) (Fin (Suc j * c))
                (map (\<lambda>k. take c (drop (k * c) xs)) [0..<Suc j]) = Some (spec_chunks c xs)"
    using Suc lt by (intro Suc.hyps(1)) simp_all
  have sl: "js_slice xs (Fin (j * c)) (Fin (j * c + c)) = take c (drop (j * c) xs)"
    using jc by (intro js_slice_Fin) simp
  show ?case
    using step jc sl by (subst chunk_loop.simps) (simp add: add.commute)
qed

lemma processPages_chunks_pos:
  assumes "0 < p"
  shows "processPages_chunks xs p = Some (spec_chunks ((length xs + p - 1) div p) xs)"
proof (cases "xs = []")
  case True
  then show ?thesis
    using assms
    by (simp add: processPages_chunks_def js_ceil_div_def spec_chunks_def chunk_loop.simps)
next
  case False
  with assms have c: "0 < (length xs + p - 1) div p"
    by (cases xs) (simp_all add: div_greater_zero_iff)
  show ?thesis
    using chunk_loop_Fin [OF c, of 0 xs] assms
    by (simp add: processPages_chunks_def js_ceil_div_def)
qed

lemma concat_slices:
  "concat (map (\<lambda>k. take c (drop (k * c) xs)) [0..<j]) = take (j * c) xs"
proof (induction j)
  case 0
  then show ?case by simp
next
  case (Suc j)
  have "take (j * c + c) xs = take (j * c) xs @ take c (drop (j * c) xs)"
    by (rule take_add)
  with Suc show ?case by (simp add: add.commute)
qed

lemma concat_spec_chunks:
  assumes "0 < c"
  shows "concat (spec_chunks c xs) = xs"
proof -
  have "\<not> ((length xs + c - 1) div c) * c < length xs"
    using ceil_div_gt_iff [OF assms, of "(length xs + c - 1) div c" "length xs"] by simp
  then show ?thesis
    by (simp add: spec_chunks_def concat_slices)
qed

lemma length_spec_chunks: "length (spec_chunks c xs) = (length xs + c - 1) div c"
  by (simp add: spec_chunks_def)

lemma nth_spec_chunks:
  "k < (length xs + c - 1) div c \<Longrightarrow> spec_chunks c xs ! k = take c (drop (k * c) xs)"
  by (simp add: spec_chunks_def)

lemma ceil_div_mult_ge:
  assumes "0 < p"
  shows "(n::nat) \<le> ((n + p - 1) div p) * p"
proof -
  have "\<not> ((n + p - 1) div p) * p < n"
    using ceil_div_gt_iff [OF assms, of "(n + p - 1) div p" n] by simp
  then show ?thesis by simp
qed

lemma chunk_count_le:
  assumes "0 < p"
  shows "(n + (n + p - 1) div p - 1) div ((n + p - 1) div p) \<le> (p::nat)"
proof (cases "(n + p - 1) div p = 0")
  case True
  then show ?thesis by simp
next
  case False
  then have c: "0 < (n + p - 1) div p" by simp
  have "\<not> p < (n + (n + p - 1) div p - 1) div ((n + p - 1) div p)"
    using ceil_div_gt_iff [OF c, of p n] ceil_div_mult_ge [OF assms, of n]
    by (simp add: mult.commute)
  then show ?thesis by simp
qed

lemma spec_chunks_nonempty:
  assumes "0 < c" and "ch \<in> set (spec_chunks c xs)"
  shows "ch \<noteq> []"
proof -
  from assms(2) obtain k where k: "k < (length xs + c - 1) div c"
    and ch: "ch = take c (drop (k * c) xs)"
    by (auto simp: spec_chunks_def)
  from k have "k * c < length xs"
    using ceil_div_gt_iff [OF assms(1), of k "length xs"] by simp
  with assms(1) show ?thesis by (simp add: ch)
qed

lemma spec_chunks_full:
  assumes "0 < c" and "Suc k < length (spec_chunks c xs)"
  shows "length (spec_chunks c xs ! k) = c"
proof -
  from assms(2) have sk: "Suc k < (length xs + c - 1) div c"
    by (simp add: length_spec_chunks)
  then have "Suc k * c < length xs"
    using ceil_div_gt_iff [OF assms(1), of "Suc k" "length xs"] by simp
  then have "c \<le> length xs - k * c" by simp
  moreover have "spec_chunks c xs ! k = take c (drop (k * c) xs)"
    using sk by (intro nth_spec_chunks) simp
  ultimately show ?thesis by (simp add: min_def)
qed

lemma concat_chunks_of_pool:
  assumes "0 < p"
  shows "concat (spec_chunks ((length xs + p - 1) div p) xs) = xs"
proof (cases "xs = []")
  case True
  then show ?thesis using assms by (simp add: spec_chunks_def)
next
  case False
  with assms have "0 < (length xs + p - 1) div p"
    by (cases xs) (simp_all add: div_greater_zero_iff)
  then show ?thesis by (rule concat_spec_chunks)
qed

lemma chunk_loop_PosInf:
  "xs \<noteq> [] \<Longrightarrow> chunk_loop xs PosInf (Fin 0) [] = Some [xs]"
  by (simp add: chunk_loop.simps js_slice_def)

lemma processPages_chunks_zero:
  "processPages_chunks xs 0 = Some (if xs = [] then [] else [xs])"
  by (simp add: processPages_chunks_def js_ceil_div_def chunk_loop_PosInf)
     (simp add: chunk_loop.simps)

lemma mod_inj_on_below:
  assumes "m \<le> (p::nat)"
  shows "inj_on (\<lambda>k. k mod p) {..<m}"
proof (rule inj_onI)
  fix x y assume "x \<in> {..<m}" "y \<in> {..<m}" "x mod p = y mod p"
  with assms show "x = y" by simp
qed

section \<open>Properties of the dispatch\<close>

lemma dispatch_in_bounds:
  assumes "length chunks \<le> length ws"
  shows "dispatch ws note chunks =
           map (\<lambda>(k, chunk). ([SetHandlers (ws ! k) k, PostMessage (ws ! k) note chunk],
                               Awaiting (ws ! k)))
               (enumerate 0 chunks)"
  unfolding dispatch_def
proof (rule map_cong [OF refl])
  fix x assume x: "x \<in> set (enumerate 0 chunks)"
  obtain k chunk where kc: "x = (k, chunk)" by (cases x)
  from x kc have "k < length chunks" by (simp add: in_set_enumerate_eq)
  with assms have "k < length ws" by simp
  then show "(case x of (index, chunk) \<Rightarrow>
                processChunk (js_index ws (js_mod index (length ws))) note chunk index) =
             (case x of (k, chunk) \<Rightarrow>
                ([SetHandlers (ws ! k) k, PostMessage (ws ! k) note chunk], Awaiting (ws ! k)))"
    by (auto simp: kc js_mod_def processChunk_def)
qed

lemma length_dispatch: "length (dispatch ws note chunks) = length chunks"
  by (simp add: dispatch_def)

lemma installed_dispatched:
  "installed wk (concat (map (\<lambda>(k, chunk). [SetHandlers (f k) k, PostMessage (f k) note chunk]) kcs))
     = map fst (filter (\<lambda>(k, chunk). f k = wk) kcs)"
  by (induction kcs) (auto simp: installed_def)

lemma inbox_dispatched:
  "inbox wk (concat (map (\<lambda>(k, chunk). [SetHandlers (f k) k, PostMessage (f k) note chunk]) kcs))
     = map (\<lambda>(k, chunk). (note, chunk)) (filter (\<lambda>(k, chunk). f k = wk) kcs)"
  by (induction kcs) (auto simp: inbox_def)

lemma posted_pages_dispatched:
  "posted_pages (concat (map (\<lambda>(k, chunk). [SetHandlers (f k) k, PostMessage (f k) note chunk]) kcs))
     = map snd kcs"
  by (induction kcs) auto

lemma installed_Nil: "installed wk [] = []"
  by (simp add: installed_def)

lemma installed_append: "installed wk (xs @ ys) = installed wk xs @ installed wk ys"
  by (simp add: installed_def)

lemma inbox_append: "inbox wk (xs @ ys) = inbox wk xs @ inbox wk ys"
  by (simp add: inbox_def)

lemma posted_pages_append: "posted_pages (xs @ ys) = posted_pages xs @ posted_pages ys"
  by (induction xs rule: posted_pages.induct) simp_all

lemma only_Processed:
  assumes "\<forall>e \<in> set xs. \<exists>wk'. e = Processed wk'"
  shows "installed wk xs = []" and "inbox wk xs = []" and "posted_pages xs = []"
    and "filter lifecycle xs = []"
  using assms by (induction xs) (auto simp: installed_def inbox_def)

lemma worked_Processed:
  "e \<in> set (worked respond prior evs pid st) \<Longrightarrow> \<exists>wk. e = Processed wk"
  by (auto simp: worked_def split: chunk_state.splits if_splits)

lemma idle_outstanding: "idle ws evs \<Longrightarrow> wk \<in> set ws \<Longrightarrow> outstanding wk evs = []"
  by (simp add: idle_def list_all_iff)

lemma idle_running: "idle ws evs \<Longrightarrow> wk \<in> set ws \<Longrightarrow> \<not> terminated wk evs"
  by (simp add: idle_def list_all_iff)

lemma terminated_Nil: "\<not> terminated wk []"
  by (simp add: terminated_def)

lemma terminated_append: "terminated wk (xs @ ys) \<longleftrightarrow> terminated wk xs \<or> terminated wk ys"
  by (auto simp: terminated_def)

lemma one_chunk_per_worker:
  assumes "distinct ws" and "length chunks \<le> length ws"
  shows "length (filter (\<lambda>(k, chunk). ws ! k = wk) (enumerate 0 chunks)) \<le> 1"
proof -
  let ?L = "filter (\<lambda>(k, chunk). ws ! k = wk) (enumerate 0 chunks)"
  have d: "distinct ?L" by simp
  have eq: "\<forall>a \<in> set ?L. \<forall>b \<in> set ?L. a = b"
  proof (intro ballI)
    fix a b assume a: "a \<in> set ?L" and b: "b \<in> set ?L"
    obtain k c where kc: "a = (k, c)" by (cases a)
    obtain k' c' where kc': "b = (k', c')" by (cases b)
    from a kc have 1: "k < length chunks" "chunks ! k = c" "ws ! k = wk"
      by (auto simp: in_set_enumerate_eq)
    from b kc' have 2: "k' < length chunks" "chunks ! k' = c'" "ws ! k' = wk"
      by (auto simp: in_set_enumerate_eq)
    from 1 2 assms have "k < length ws" "k' < length ws" "ws ! k = ws ! k'"
      by simp_all
    with assms(1) have "k = k'"
      by (simp add: nth_eq_iff_index_eq)
    with 1 2 kc kc' show "a = b" by simp
  qed
  have "finite (set ?L)" by (rule finite_set)
  from card_le_Suc0_iff_eq [OF this] eq have "card (set ?L) \<le> Suc 0"
    by blast
  moreover from d have "card (set ?L) = length ?L" by (rule distinct_card)
  ultimately show ?thesis by simp
qed

lemma the_chunk_of_worker:
  assumes "distinct ws" and "length chunks \<le> length ws" and "j < length chunks"
  shows "filter (\<lambda>(k, chunk). ws ! k = ws ! j) (enumerate 0 chunks) = [(j, chunks ! j)]"
proof -
  let ?L = "filter (\<lambda>(k, chunk). ws ! k = ws ! j) (enumerate 0 chunks)"
  have "(j, chunks ! j) \<in> set ?L"
    using assms(3) by (simp add: in_set_enumerate_eq)
  moreover have "length ?L \<le> 1"
    by (rule one_chunk_per_worker [OF assms(1,2)])
  ultimately show ?thesis
    by (cases ?L) auto
qed

lemma first_event_single: "first_event respond wk [(note, pns)] = respond wk note pns"
  by (cases "respond wk note pns") simp_all

lemma dispatch_not_lifecycle:
  "e \<in> set (concat (map fst (dispatch ws note chunks))) \<Longrightarrow> \<not> lifecycle e"
  by (auto simp: dispatch_def processChunk_def split: option.splits)

section \<open>Properties of \<open>Promise.all\<close> and of the handlers\<close>

lemma all_resolved_Some: "all_resolved ps = Some vs \<longleftrightarrow> ps = map Resolved vs"
  by (induction ps arbitrary: vs rule: all_resolved.induct) auto

lemma rejection_eq: "e \<in> set (rejection p) \<longleftrightarrow> p = Rejected e"
  by (cases p) auto

lemma promise_all_Resolved:
  "promise_all sched ps = Resolved vs \<Longrightarrow> ps = map Resolved vs"
  by (auto simp: promise_all_def all_resolved_Some split: list.splits option.splits)

lemma promise_all_Rejected:
  assumes "promise_all sched ps = Rejected e"
  shows "\<exists>k < length ps. ps ! k = Rejected e"
proof -
  let ?ks = "filter (\<lambda>k. k < length ps) sched @ [0..<length ps]"
  from assms obtain es where "concat (map (\<lambda>k. rejection (ps ! k)) ?ks) = e # es"
    by (auto simp: promise_all_def split: list.splits option.splits)
  then have "e \<in> set (concat (map (\<lambda>k. rejection (ps ! k)) ?ks))" by simp
  then have "\<exists>k \<in> set ?ks. e \<in> set (rejection (ps ! k))"
    unfolding set_concat set_map by blast
  then obtain k where k: "k \<in> set ?ks" and r: "e \<in> set (rejection (ps ! k))"
    by blast
  from k have "k < length ps" by auto
  moreover from r have "ps ! k = Rejected e" by (simp add: rejection_eq)
  ultimately show ?thesis by blast
qed

lemma promise_all_rejects:
  assumes "k < length ps" and "ps ! k = Rejected e"
  shows "\<exists>e'. promise_all sched ps = Rejected e'"
proof -
  let ?ks = "filter (\<lambda>k. k < length ps) sched @ [0..<length ps]"
  from assms(1) have "k \<in> set ?ks" by simp
  moreover from assms(2) have "e \<in> set (rejection (ps ! k))" by simp
  ultimately have "e \<in> set (concat (map (\<lambda>k. rejection (ps ! k)) ?ks))"
    unfolding set_concat set_map by blast
  then obtain e' es where "concat (map (\<lambda>k. rejection (ps ! k)) ?ks) = e' # es"
    by (cases "concat (map (\<lambda>k. rejection (ps ! k)) ?ks)") auto
  then show ?thesis by (simp add: promise_all_def)
qed

lemma all_resolved_None:
  "all_resolved ps = None \<Longrightarrow> \<exists>q \<in> set ps. q = Pending \<or> (\<exists>e. q = Rejected e)"
proof (induction ps)
  case Nil
  then show ?case by simp
next
  case (Cons q ps)
  show ?case
  proof (cases q)
    case (Resolved v)
    with Cons.prems have "all_resolved ps = None" by simp
    with Cons.IH show ?thesis by auto
  next
    case (Rejected e)
    then show ?thesis by simp
  next
    case Pending
    then show ?thesis by simp
  qed
qed

lemma promise_all_settles:
  assumes "\<forall>p \<in> set ps. p \<noteq> Pending"
  shows "promise_all sched ps \<noteq> Pending"
proof (cases "all_resolved ps")
  case (Some vs)
  then show ?thesis
    by (auto simp: promise_all_def split: list.splits)
next
  case None
  from all_resolved_None [OF this] assms obtain q e
    where "q \<in> set ps" and "q = Rejected e" by blast
  then obtain k where "k < length ps" and "ps ! k = Rejected e"
    by (auto simp: in_set_conv_nth)
  from promise_all_rejects [OF this, of sched] show ?thesis by auto
qed

lemma promise_all_Nil: "promise_all sched [] = Resolved []"
  by (simp add: promise_all_def)

lemma map_promise_Resolved:
  "map_promise f p = Resolved r \<longleftrightarrow> (\<exists>v. p = Resolved v \<and> r = f v)"
  by (cases p) auto

lemma map_promise_Rejected: "map_promise f p = Rejected e \<longleftrightarrow> p = Rejected e"
  by (cases p) auto

lemma map_promise_Pending: "map_promise f p = Pending \<longleftrightarrow> p = Pending"
  by (cases p) auto

lemma on_reply_Pending: "on_reply r = Pending \<longleftrightarrow> r = Silent"
  by (cases r) (auto split: option.splits)

lemma on_reply_Resolved:
  "on_reply r = Resolved imgs \<longleftrightarrow>
     (\<exists>err. r = Response err imgs \<and> (err = None \<or> err = Some []))"
  by (cases r) (auto split: option.splits)

lemma on_reply_Rejected:
  "on_reply r = Rejected e \<longleftrightarrow>
     (\<exists>m. r = Crash m \<and> e = ErrorEvent m)
     \<or> (\<exists>m imgs. m \<noteq> [] \<and> r = Response (Some m) imgs \<and> e = Error m)"
  by (cases r) (auto split: option.splits)

lemma promise_all_single: "promise_all sched [Rejected e :: 'a promise] = Rejected e"
proof -
  let ?ps = "[Rejected e] :: 'a promise list"
  have "\<exists>e'. promise_all sched ?ps = Rejected e'"
    by (rule promise_all_rejects [of 0]) simp_all
  then obtain e' where e': "promise_all sched ?ps = Rejected e'" by blast
  from promise_all_Rejected [OF this] have "e' = e" by simp
  with e' show ?thesis by simp
qed

lemma worker_of_chunk:
  "k < length ws \<Longrightarrow> js_index ws (js_mod k (length ws)) = Some (ws ! k)"
  by (cases ws) (simp_all add: js_mod_def)

lemma resolved_values:
  assumes "map_promise concat
             (promise_all sched (map (\<lambda>(k, chunk). on_reply (F k chunk)) (enumerate 0 chunks)))
           = Resolved result"
  shows "\<exists>vs. length vs = length chunks \<and> result = concat vs
             \<and> (\<forall>k < length chunks. on_reply (F k (chunks ! k)) = Resolved (vs ! k))"
proof -
  from assms obtain vs
    where pa: "promise_all sched (map (\<lambda>(k, chunk). on_reply (F k chunk)) (enumerate 0 chunks))
                 = Resolved vs"
      and res: "result = concat vs"
    by (auto simp: map_promise_Resolved)
  from promise_all_Resolved [OF pa]
  have eq: "map (\<lambda>(k, chunk). on_reply (F k chunk)) (enumerate 0 chunks) = map Resolved vs" .
  then have len: "length vs = length chunks"
    by (metis length_enumerate length_map)
  have "\<forall>k < length chunks. on_reply (F k (chunks ! k)) = Resolved (vs ! k)"
  proof (intro allI impI)
    fix k assume k: "k < length chunks"
    then have "map (\<lambda>(k, chunk). on_reply (F k chunk)) (enumerate 0 chunks) ! k
               = on_reply (F k (chunks ! k))"
      by (simp add: nth_enumerate_eq)
    moreover from k len have "map Resolved vs ! k = Resolved (vs ! k)" by simp
    ultimately show "on_reply (F k (chunks ! k)) = Resolved (vs ! k)"
      using eq by simp
  qed
  with len res show ?thesis by blast
qed

section \<open>\<open>processPages\<close> on a pool with workers and on a pool without\<close>

lemma settle_dispatched:
  assumes "distinct ws" and "length chunks \<le> length ws" and "idle ws prior"
  shows "map (\<lambda>(index, st).
                settle respond prior (concat (map fst (dispatch ws note chunks))) later index st)
             (enumerate 0 (map snd (dispatch ws note chunks)))
         = map (\<lambda>(k, chunk). on_reply (if installed (ws ! k) later = []
                                                  \<and> \<not> terminated (ws ! k) later
                                         then respond (ws ! k) note chunk else Silent))
               (enumerate 0 chunks)"
proof (rule nth_equalityI)
  show "length (map (\<lambda>(index, st).
                       settle respond prior (concat (map fst (dispatch ws note chunks))) later index st)
             (enumerate 0 (map snd (dispatch ws note chunks))))
       = length (map (\<lambda>(k, chunk). on_reply (if installed (ws ! k) later = []
                                                        \<and> \<not> terminated (ws ! k) later
                                         then respond (ws ! k) note chunk else Silent))
               (enumerate 0 chunks))"
    by (simp add: length_dispatch)
next
  fix j
  assume "j < length (map (\<lambda>(index, st).
                       settle respond prior (concat (map fst (dispatch ws note chunks))) later index st)
             (enumerate 0 (map snd (dispatch ws note chunks))))"
  then have j: "j < length chunks" by (simp add: length_dispatch)
  with assms(2) have "ws ! j \<in> set ws" by simp
  with assms(3) have quiet: "outstanding (ws ! j) prior = []" by (rule idle_outstanding)
  from assms(3) \<open>ws ! j \<in> set ws\<close> have running: "\<not> terminated (ws ! j) prior"
    by (rule idle_running)
  let ?f = "\<lambda>(k, chunk). [SetHandlers (ws ! k) k, PostMessage (ws ! k) note chunk]"
  have evs: "concat (map fst (dispatch ws note chunks)) =
             concat (map ?f (enumerate 0 chunks))"
    by (simp add: dispatch_in_bounds [OF assms(2)] comp_def case_prod_unfold)
  have st: "map snd (dispatch ws note chunks) ! j = Awaiting (ws ! j)"
    using j by (simp add: dispatch_in_bounds [OF assms(2)] nth_enumerate_eq)
  have inst: "installed (ws ! j) (concat (map ?f (enumerate 0 chunks))) = [j]"
    by (simp add: installed_dispatched [of "ws ! j" "\<lambda>k. ws ! k"]
        the_chunk_of_worker [OF assms(1,2) j])
  have inb: "inbox (ws ! j) (concat (map ?f (enumerate 0 chunks))) = [(note, chunks ! j)]"
    by (simp add: inbox_dispatched [of "ws ! j" "\<lambda>k. ws ! k"]
        the_chunk_of_worker [OF assms(1,2) j])
  have "settle respond prior (concat (map fst (dispatch ws note chunks))) later j (Awaiting (ws ! j))
        = on_reply (if installed (ws ! j) later = [] \<and> \<not> terminated (ws ! j) later
                    then respond (ws ! j) note (chunks ! j) else Silent)"
    unfolding evs
    by (simp add: settle_def inst inb quiet running terminated_append first_event_single
        del: first_event.simps)
  with j st
  show "map (\<lambda>(index, st).
               settle respond prior (concat (map fst (dispatch ws note chunks))) later index st)
             (enumerate 0 (map snd (dispatch ws note chunks))) ! j
       = map (\<lambda>(k, chunk). on_reply (if installed (ws ! k) later = []
                                                \<and> \<not> terminated (ws ! k) later
                                         then respond (ws ! k) note chunk else Silent))
               (enumerate 0 chunks) ! j"
    by (simp add: nth_enumerate_eq length_dispatch)
qed

lemma processPages_finished:
  "\<forall>e \<in> set (concat (map (\<lambda>k. worked respond prior evs k (f k)) ks)). \<exists>wk. e = Processed wk"
  by (auto dest: worked_Processed)

lemma processPages_not_overtaken:
  "fst (processPages respond sched pool note xs w) =
     processPages_overtaken respond sched pool note xs w []"
  by (simp add: processPages_def processPages_overtaken_def Let_def split: option.splits)

lemma processPages_overtaken_outcome:
  assumes "distinct (workers pool)" and "workers pool \<noteq> []" and "idle (workers pool) (trace w)"
  shows "processPages_overtaken respond sched pool note xs w later =
           map_promise concat
              (promise_all sched
                 (map (\<lambda>(k, chunk). on_reply (if installed (workers pool ! k) later = []
                                                  \<and> \<not> terminated (workers pool ! k) later
                                               then respond (workers pool ! k) note chunk
                                               else Silent))
                      (enumerate 0
                         (spec_chunks ((length xs + length (workers pool) - 1) div length (workers pool)) xs))))"
proof -
  let ?ws = "workers pool"
  let ?chunks = "spec_chunks ((length xs + length ?ws - 1) div length ?ws) xs"
  from assms(2) have p: "0 < length ?ws" by simp
  have chunks: "processPages_chunks xs (length ?ws) = Some ?chunks"
    by (rule processPages_chunks_pos [OF p])
  have le: "length ?chunks \<le> length ?ws"
    unfolding length_spec_chunks by (rule chunk_count_le [OF p])
  show ?thesis
    unfolding processPages_overtaken_def chunks option.case Let_def
    unfolding settle_dispatched [OF assms(1) le assms(3)] ..
qed

lemma processPages_outcome:
  assumes "distinct (workers pool)" and "workers pool \<noteq> []" and "idle (workers pool) (trace w)"
  shows "fst (processPages respond sched pool note xs w) =
           map_promise concat
              (promise_all sched
                 (map (\<lambda>(k, chunk). on_reply (respond (workers pool ! k) note chunk))
                      (enumerate 0
                         (spec_chunks ((length xs + length (workers pool) - 1) div length (workers pool)) xs))))"
  unfolding processPages_not_overtaken processPages_overtaken_outcome [OF assms] installed_Nil
  by (simp add: terminated_Nil)

lemma processPages_overtaken_no_workers:
  assumes "workers pool = []"
  shows "processPages_overtaken respond sched pool note xs w later =
           (if xs = [] then Resolved [] else Rejected TypeError)"
  by (simp add: processPages_overtaken_def assms processPages_chunks_zero dispatch_def
      js_mod_def processChunk_def settle_def promise_all_Nil promise_all_single)

lemma resolved_answers:
  fixes respond :: "('p, 'i) respond"
  assumes "distinct (workers pool)" and "idle (workers pool) (trace w)"
    and "processPages_overtaken respond sched pool note xs w later = Resolved result"
  shows "\<exists>chunks answers.
           processPages_chunks xs (length (workers pool)) = Some chunks
         \<and> concat chunks = xs
         \<and> length answers = length chunks
         \<and> result = concat answers
         \<and> (\<forall>k < length chunks.
               js_index (workers pool) (js_mod k (length (workers pool))) = Some (workers pool ! k)
             \<and> (\<exists>err. respond (workers pool ! k) note (chunks ! k) = Response err (answers ! k)
                    \<and> (err = None \<or> err = Some [])))"
proof (cases "workers pool = []")
  case True
  from assms(3) have "xs = []" and "result = []"
    unfolding processPages_overtaken_no_workers [OF True] by (simp_all split: if_splits)
  then have "processPages_chunks xs (length (workers pool)) = Some []
         \<and> concat [] = xs \<and> length ([] :: 'i list list) = length ([] :: int list list)
         \<and> result = concat []"
    by (simp add: True processPages_chunks_zero)
  then show ?thesis by fastforce
next
  case False
  let ?ws = "workers pool"
  let ?chunks = "spec_chunks ((length xs + length ?ws - 1) div length ?ws) xs"
  from False have p: "0 < length ?ws" by simp
  have chunks: "processPages_chunks xs (length ?ws) = Some ?chunks"
    by (rule processPages_chunks_pos [OF p])
  have le: "length ?chunks \<le> length ?ws"
    unfolding length_spec_chunks by (rule chunk_count_le [OF p])
  have cc: "concat ?chunks = xs" by (rule concat_chunks_of_pool [OF p])
  from assms(3)
  have "map_promise concat
          (promise_all sched
             (map (\<lambda>(k, chunk). on_reply (if installed (?ws ! k) later = []
                                                     \<and> \<not> terminated (?ws ! k) later
                                           then respond (?ws ! k) note chunk else Silent))
                  (enumerate 0 ?chunks))) = Resolved result"
    unfolding processPages_overtaken_outcome [OF assms(1) False assms(2)] .
  from resolved_values [OF this] obtain vs
    where len: "length vs = length ?chunks" and res: "result = concat vs"
      and each: "\<forall>k < length ?chunks.
                   on_reply (if installed (?ws ! k) later = []
                                \<and> \<not> terminated (?ws ! k) later
                             then respond (?ws ! k) note (?chunks ! k) else Silent)
                     = Resolved (vs ! k)"
    by blast
  have "js_index ?ws (js_mod k (length ?ws)) = Some (?ws ! k)
        \<and> (\<exists>err. respond (?ws ! k) note (?chunks ! k) = Response err (vs ! k)
               \<and> (err = None \<or> err = Some []))"
    if k: "k < length ?chunks" for k
  proof -
    from k le have "k < length ?ws" by simp
    then have "js_index ?ws (js_mod k (length ?ws)) = Some (?ws ! k)"
      by (rule worker_of_chunk)
    moreover from each k
    have "on_reply (if installed (?ws ! k) later = [] \<and> \<not> terminated (?ws ! k) later
                    then respond (?ws ! k) note (?chunks ! k) else Silent) = Resolved (vs ! k)"
      by blast
    then have "\<exists>err. respond (?ws ! k) note (?chunks ! k) = Response err (vs ! k)
                   \<and> (err = None \<or> err = Some [])"
      by (auto simp: on_reply_Resolved split: if_splits)
    ultimately show ?thesis by blast
  qed
  with chunks cc len res show ?thesis by blast
qed

lemma processPages_events:
  assumes "workers pool \<noteq> []"
  shows "\<exists>finished.
           snd (processPages respond sched pool note xs w) =
             w\<lparr>trace := trace w @
                 concat (map (\<lambda>(k, chunk). [SetHandlers (workers pool ! k) k,
                                            PostMessage (workers pool ! k) note chunk])
                      (enumerate 0
                         (spec_chunks ((length xs + length (workers pool) - 1) div length (workers pool)) xs)))
                 @ finished\<rparr>
         \<and> (\<forall>e \<in> set finished. \<exists>wk. e = Processed wk)"
proof -
  let ?ws = "workers pool"
  let ?chunks = "spec_chunks ((length xs + length ?ws - 1) div length ?ws) xs"
  from assms have p: "0 < length ?ws" by simp
  have chunks: "processPages_chunks xs (length ?ws) = Some ?chunks"
    by (rule processPages_chunks_pos [OF p])
  have le: "length ?chunks \<le> length ?ws"
    unfolding length_spec_chunks by (rule chunk_count_le [OF p])
  have evs: "concat (map fst (dispatch ?ws note ?chunks)) =
             concat (map (\<lambda>(k, chunk). [SetHandlers (?ws ! k) k, PostMessage (?ws ! k) note chunk])
                         (enumerate 0 ?chunks))"
    unfolding dispatch_in_bounds [OF le] by (simp add: comp_def case_prod_unfold)
  show ?thesis
    unfolding processPages_def chunks option.case Let_def snd_conv
    unfolding evs
    using processPages_finished by blast
qed

lemma events_of_call:
  assumes "workers pool \<noteq> []"
  shows "\<exists>finished.
           drop (length (trace w)) (trace (snd (processPages respond sched pool note xs w)))
             = concat (map (\<lambda>(k, chunk). [SetHandlers (workers pool ! k) k,
                                           PostMessage (workers pool ! k) note chunk])
                      (enumerate 0
                         (spec_chunks ((length xs + length (workers pool) - 1) div length (workers pool)) xs)))
               @ finished
         \<and> (\<forall>e \<in> set finished. \<exists>wk. e = Processed wk)"
proof -
  from processPages_events [OF assms, of respond sched "note" xs w] obtain finished
    where "snd (processPages respond sched pool note xs w) =
             w\<lparr>trace := trace w @
                 concat (map (\<lambda>(k, chunk). [SetHandlers (workers pool ! k) k,
                                            PostMessage (workers pool ! k) note chunk])
                      (enumerate 0
                         (spec_chunks ((length xs + length (workers pool) - 1) div length (workers pool)) xs)))
                 @ finished\<rparr>"
      and "\<forall>e \<in> set finished. \<exists>wk. e = Processed wk"
    by blast
  then show ?thesis by auto
qed

lemma handled_subset: "set (handled ps ks) \<subseteq> set ks"
  by (induction ks) (auto split: promise.splits)

lemma processPages_no_workers:
  fixes respond :: "('p, 'i) respond"
  assumes "workers pool = []"
  shows "processPages respond sched pool note xs w =
           (if xs = [] then Resolved [] else Rejected TypeError, w)"
proof (cases "xs = []")
  case True
  then show ?thesis
    by (simp add: processPages_def assms processPages_chunks_zero dispatch_def promise_all_Nil)
next
  case False
  let ?ps = "[Rejected TypeError] :: 'i list promise list"
  have "\<exists>e. promise_all sched ?ps = Rejected e"
    by (rule promise_all_rejects [of 0]) simp_all
  then obtain e where e: "promise_all sched ?ps = Rejected e" by blast
  from promise_all_Rejected [OF this] have "e = TypeError" by simp
  with e have all: "promise_all sched ?ps = Rejected TypeError" by simp
  have "concat (map (\<lambda>k. worked respond (trace w) [] k ([Thrown TypeError] ! k)) ks) = []"
    if "set ks \<subseteq> {0}" for ks :: "nat list"
    using that by (induction ks) (simp_all add: worked_def)
  moreover have "set (remdups (handled ?ps (filter (\<lambda>k. k < Suc 0) sched @ [0]))) \<subseteq> {0}"
    using handled_subset [of ?ps "filter (\<lambda>k. k < Suc 0) sched @ [0]"] by auto
  ultimately have "concat (map (\<lambda>k. worked respond (trace w) [] k ([Thrown TypeError] ! k))
                     (remdups (handled ?ps (filter (\<lambda>k. k < Suc 0) sched @ [0])))) = []"
    by blast
  with False all show ?thesis
    by (simp add: processPages_def assms processPages_chunks_zero dispatch_def
        js_mod_def processChunk_def settle_def)
qed

lemma processPages_world:
  "\<exists>evs. snd (processPages respond sched pool note xs w) = w\<lparr>trace := trace w @ evs\<rparr>
         \<and> filter lifecycle evs = []"
proof (cases "processPages_chunks xs (length (workers pool))")
  case None
  then have "snd (processPages respond sched pool note xs w) = w\<lparr>trace := trace w @ []\<rparr>"
    by (simp add: processPages_def)
  then show ?thesis by (intro exI [of _ "[]"]) simp
next
  case (Some chunks)
  let ?evs = "concat (map fst (dispatch (workers pool) note chunks))"
  obtain finished
    where w': "snd (processPages respond sched pool note xs w) = w\<lparr>trace := trace w @ ?evs @ finished\<rparr>"
      and fin: "\<forall>e \<in> set finished. \<exists>wk. e = Processed wk"
    unfolding processPages_def Some option.case Let_def snd_conv
    using processPages_finished by blast
  have "filter lifecycle ?evs = []"
    unfolding filter_empty_conv using dispatch_not_lifecycle by blast
  moreover have "filter lifecycle finished = []"
    by (rule only_Processed(4) [OF fin])
  ultimately have "filter lifecycle (?evs @ finished) = []" by simp
  with w' show ?thesis by blast
qed

section \<open>Pools, converters and call sites\<close>

lemma new_WorkerPool_workers:
  "workers (fst (new_WorkerPool n w)) = [next_worker w ..< next_worker w + n]"
  by (simp add: new_WorkerPool_def Let_def)

lemma new_WorkerPool_distinct: "distinct (workers (fst (new_WorkerPool n w)))"
  by (simp add: new_WorkerPool_workers)

lemma new_ImageConverter_pool:
  "workerPool (fst (new_ImageConverter n w)) = fst (new_WorkerPool n w)"
  by (simp add: new_ImageConverter_def split: prod.splits)

lemma WorkerPool_terminate_again:
  "workers pool = [] \<Longrightarrow> WorkerPool_terminate pool w = (pool, w)"
  by (simp add: WorkerPool_terminate_def)

lemma WorkerPool_terminate_repeat:
  "(case_prod WorkerPool_terminate ^^ Suc n) (pool, w)
     = (pool\<lparr>workers := []\<rparr>, w\<lparr>trace := trace w @ map TerminateWorker (workers pool)\<rparr>)"
proof (induction n)
  case 0
  then show ?case by (simp add: WorkerPool_terminate_def)
next
  case (Suc n)
  have "(case_prod WorkerPool_terminate ^^ Suc (Suc n)) (pool, w)
          = case_prod WorkerPool_terminate ((case_prod WorkerPool_terminate ^^ Suc n) (pool, w))"
    by (simp del: funpow.simps add: funpow.simps(2) [of "Suc n"])
  also have "\<dots> = (pool\<lparr>workers := []\<rparr>, w\<lparr>trace := trace w @ map TerminateWorker (workers pool)\<rparr>)"
    unfolding Suc.IH by (simp add: WorkerPool_terminate_again)
  finally show ?case .
qed

lemma call_site_lifecycle:
  "filter lifecycle
     (drop (length (trace w)) (trace (snd (writeImageFiles_convert respond sched hw sn w))))
   = map NewWorker [next_worker w ..< next_worker w + hw]
     @ (if fst (writeImageFiles_convert respond sched hw sn w) = Pending then []
        else map TerminateWorker [next_worker w ..< next_worker w + hw])
   \<and> next_worker (snd (writeImageFiles_convert respond sched hw sn w)) = next_worker w + hw"
proof -
  let ?ids = "[next_worker w ..< next_worker w + hw]"
  let ?pool = "\<lparr>maxWorkers = hw, workers = ?ids\<rparr>"
  let ?conv = "\<lparr>workerPool = ?pool\<rparr>"
  let ?w1 = "w\<lparr>next_worker := next_worker w + hw, trace := trace w @ map NewWorker ?ids\<rparr>"
  let ?site = "writeImageFiles_convert respond sched hw sn w"
  have new: "new_ImageConverter hw w = (?conv, ?w1)"
    by (simp add: new_ImageConverter_def new_WorkerPool_def Let_def)
  obtain evs where w2: "snd (processPages respond sched ?pool sn (requested_pages sn None) ?w1)
                          = ?w1\<lparr>trace := trace ?w1 @ evs\<rparr>"
    and nl: "filter lifecycle evs = []"
    using processPages_world by blast
  obtain images w2' where call: "convertToImages respond sched ?conv sn None ?w1 = (images, w2')"
    by (cases "convertToImages respond sched ?conv sn None ?w1")
  with w2 have w2': "w2' = ?w1\<lparr>trace := trace ?w1 @ evs\<rparr>"
    by (simp add: convertToImages_def)
  show ?thesis
  proof (cases "images = Pending")
    case True
    then have site: "?site = (Pending, w2')"
      by (simp add: writeImageFiles_convert_def new call)
    then have "trace (snd ?site) = trace w @ map NewWorker ?ids @ evs"
      by (simp add: w2')
    then have "filter lifecycle (drop (length (trace w)) (trace (snd ?site))) = map NewWorker ?ids"
      using nl by (simp add: filter_map comp_def)
    moreover have "next_worker (snd ?site) = next_worker w + hw"
      unfolding site by (simp add: w2')
    ultimately show ?thesis unfolding site by simp
  next
    case False
    then have site: "?site = (images, snd (ImageConverter_terminate ?conv w2'))"
      by (cases images) (simp_all add: writeImageFiles_convert_def new call)
    then have "trace (snd ?site) = trace w @ map NewWorker ?ids @ evs @ map TerminateWorker ?ids"
      by (simp add: ImageConverter_terminate_def WorkerPool_terminate_def w2')
    then have "filter lifecycle (drop (length (trace w)) (trace (snd ?site)))
                 = map NewWorker ?ids @ map TerminateWorker ?ids"
      using nl by (simp add: filter_map comp_def)
    moreover have "next_worker (snd ?site) = next_worker w + hw"
      unfolding site by (simp add: ImageConverter_terminate_def WorkerPool_terminate_def w2')
    moreover from site False have "fst ?site \<noteq> Pending" by simp
    ultimately show ?thesis by simp
  qed
qed

lemma exportToPDF_convert_eq: "exportToPDF_convert = writeImageFiles_convert"
  by (intro ext) (simp add: exportToPDF_convert_def writeImageFiles_convert_def)

lemma onLoadFile_convert_eq: "onLoadFile_convert = writeImageFiles_convert"
  by (intro ext) (simp add: onLoadFile_convert_def writeImageFiles_convert_def)

lemma count_list_filter:
  "P e \<Longrightarrow> count_list (filter P xs) e = count_list xs e"
  by (induction xs) auto

lemma count_list_distinct:
  "distinct xs \<Longrightarrow> x \<in> set xs \<Longrightarrow> count_list xs x = 1"
  by (induction xs) auto

lemma lifecycle_counts:
  assumes "filter lifecycle evs = map NewWorker ids @ (if pending then [] else map TerminateWorker ids)"
    and "distinct ids" and "wk \<in> set ids"
  shows "count_list evs (NewWorker wk) = 1
       \<and> count_list evs (TerminateWorker wk) = (if pending then 0 else 1)"
proof -
  have new: "count_list (map NewWorker ids) (NewWorker wk :: 'a event) = count_list ids wk"
    by (rule count_list_map_conv) (simp add: inj_def)
  have "(TerminateWorker wk :: 'a event) \<notin> set (map NewWorker ids)" by auto
  then have new': "count_list (map NewWorker ids) (TerminateWorker wk :: 'a event) = 0"
    by (rule count_notin)
  have trm: "count_list (map TerminateWorker ids) (TerminateWorker wk :: 'a event) = count_list ids wk"
    by (rule count_list_map_conv) (simp add: inj_def)
  have "(NewWorker wk :: 'a event) \<notin> set (map TerminateWorker ids)" by auto
  then have trm': "count_list (map TerminateWorker ids) (NewWorker wk :: 'a event) = 0"
    by (rule count_notin)
  have one: "count_list ids wk = 1"
    by (rule count_list_distinct [OF assms(2,3)])
  have "count_list evs (NewWorker wk) = count_list (filter lifecycle evs) (NewWorker wk)"
    by (simp add: count_list_filter)
  moreover have "count_list evs (TerminateWorker wk)
                   = count_list (filter lifecycle evs) (TerminateWorker wk)"
    by (simp add: count_list_filter)
  ultimately show ?thesis
    unfolding assms(1) by (simp add: new new' trm trm' one)
qed

lemma convertToImages_no_lifecycle:
  "filter lifecycle
     (drop (length (trace w))
        (trace (snd (convertToImages respond sched conv note pageNumbers w)))) = []
   \<and> next_worker (snd (convertToImages respond sched conv note pageNumbers w)) = next_worker w"
proof -
  obtain evs where "snd (convertToImages respond sched conv note pageNumbers w)
                      = w\<lparr>trace := trace w @ evs\<rparr>"
    and "filter lifecycle evs = []"
    unfolding convertToImages_def using processPages_world by blast
  then show ?thesis by simp
qed

lemma convertToImages_Nil:
  "convertToImages respond sched conv note (Some []) w = (Resolved [], w)"
  "pages note = [] \<Longrightarrow> convertToImages respond sched conv note None w = (Resolved [], w)"
proof -
  have chunks: "processPages_chunks ([] :: int list) p = Some []" for p
    by (simp add: processPages_chunks_def chunk_loop.simps)
  have call: "processPages respond sched (workerPool conv) note [] w = (Resolved [], w)"
    by (simp add: processPages_def chunks dispatch_def promise_all_Nil)
  show "convertToImages respond sched conv note (Some []) w = (Resolved [], w)"
    using call by (simp add: convertToImages_def requested_pages_def)
  show "convertToImages respond sched conv note None w = (Resolved [], w)" if "pages note = []"
    using call that by (simp add: convertToImages_def requested_pages_def)
qed

lemma call_site_zero_pages:
  assumes "pages sn = []"
  shows "writeImageFiles_convert respond sched hw sn w =
           (Resolved [],
            w\<lparr>next_worker := next_worker w + hw,
               trace := trace w @ map NewWorker [next_worker w ..< next_worker w + hw]
                        @ map TerminateWorker [next_worker w ..< next_worker w + hw]\<rparr>)"
  by (simp add: writeImageFiles_convert_def new_ImageConverter_def new_WorkerPool_def Let_def
      convertToImages_Nil(2) [OF assms] ImageConverter_terminate_def WorkerPool_terminate_def)

section \<open>C1: a successful call returns the renders of the requested pages, in order\<close>




section \<open>C2: the chunking step partitions the page list\<close>

text \<open>
  Claim C2. For every list of page indices and every pool size of at least 1, the chunking
  step of \<open>processPages\<close> returns; its chunks are the contiguous slices of length
  \<open>chunkSize = ceil (len / poolSize)\<close> of the list (only the last one may be shorter);
  there are at most \<open>poolSize\<close> of them; none is empty; an empty list gives no chunk;
  and the chunks concatenated in order are the list.
\<close>

theorem chunking_partitions:
  assumes "1 \<le> poolSize"
  shows "\<exists>chunks chunkSize.
           processPages_chunks indices poolSize = Some chunks
         \<and> js_ceil_div (length indices) poolSize = Fin chunkSize
         \<and> chunkSize = (length indices + poolSize - 1) div poolSize
         \<and> chunks = spec_chunks chunkSize indices
         \<and> (\<forall>k < length chunks. chunks ! k = take chunkSize (drop (k * chunkSize) indices))
         \<and> (\<forall>k. Suc k < length chunks \<longrightarrow> length (chunks ! k) = chunkSize)
         \<and> length chunks \<le> poolSize
         \<and> (\<forall>ch \<in> set chunks. ch \<noteq> [])
         \<and> (indices = [] \<longrightarrow> chunks = [])
         \<and> concat chunks = indices"
proof -
  define c where "c = (length indices + poolSize - 1) div poolSize"
  from assms have p: "0 < poolSize" by simp
  have chunks: "processPages_chunks indices poolSize = Some (spec_chunks c indices)"
    unfolding c_def by (rule processPages_chunks_pos [OF p])
  have size: "js_ceil_div (length indices) poolSize = Fin c"
    using p by (simp add: js_ceil_div_def c_def)
  have nth: "\<forall>k < length (spec_chunks c indices).
               spec_chunks c indices ! k = take c (drop (k * c) indices)"
    by (simp add: length_spec_chunks nth_spec_chunks)
  have count: "length (spec_chunks c indices) \<le> poolSize"
    unfolding length_spec_chunks c_def by (rule chunk_count_le [OF p])
  have empty: "indices = [] \<longrightarrow> spec_chunks c indices = []"
    using p by (simp add: spec_chunks_def c_def)
  show ?thesis
  proof (cases "indices = []")
    case True
    then have "spec_chunks c indices = []" using empty by simp
    with chunks size True show ?thesis by (simp add: c_def)
  next
    case False
    with p have cpos: "0 < c"
      unfolding c_def by (cases indices) (simp_all add: div_greater_zero_iff)
    have full: "\<forall>k. Suc k < length (spec_chunks c indices)
                  \<longrightarrow> length (spec_chunks c indices ! k) = c"
      using spec_chunks_full [OF cpos] by blast
    have ne: "\<forall>ch \<in> set (spec_chunks c indices). ch \<noteq> []"
      using spec_chunks_nonempty [OF cpos] by blast
    have cat: "concat (spec_chunks c indices) = indices"
      by (rule concat_spec_chunks [OF cpos])
    show ?thesis
      using chunks size nth full count ne empty cat c_def by blast
  qed
qed

theorem chunking_partitions_witness:
  "(1::nat) \<le> 4
   \<and> processPages_chunks [1, 2, 3, 4, 5, 6, 7 :: int] 4 = Some [[1, 2], [3, 4], [5, 6], [7]]
   \<and> (\<exists>chunks chunkSize.
           processPages_chunks [1, 2, 3, 4, 5, 6, 7 :: int] 4 = Some chunks
         \<and> js_ceil_div (length [1, 2, 3, 4, 5, 6, 7 :: int]) 4 = Fin chunkSize
         \<and> length chunks \<le> 4
         \<and> (\<forall>ch \<in> set chunks. ch \<noteq> [])
         \<and> concat chunks = [1, 2, 3, 4, 5, 6, 7])"
proof -
  have eval: "processPages_chunks [1, 2, 3, 4, 5, 6, 7 :: int] 4 = Some [[1, 2], [3, 4], [5, 6], [7]]"
    by (simp add: processPages_chunks_def js_ceil_div_def chunk_loop.simps js_slice_def)
  have h: "(1::nat) \<le> 4" by simp
  from chunking_partitions [OF h, of "[1, 2, 3, 4, 5, 6, 7 :: int]"]
  have "\<exists>chunks chunkSize.
           processPages_chunks [1, 2, 3, 4, 5, 6, 7 :: int] 4 = Some chunks
         \<and> js_ceil_div (length [1, 2, 3, 4, 5, 6, 7 :: int]) 4 = Fin chunkSize
         \<and> length chunks \<le> 4
         \<and> (\<forall>ch \<in> set chunks. ch \<noteq> [])
         \<and> concat chunks = [1, 2, 3, 4, 5, 6, 7]"
    by blast
  with eval h show ?thesis by blast
qed

section \<open>C3: the pool of a converter, and its termination\<close>

text \<open>
  Claim C3 says that every call of \<open>convertToImages\<close> creates a Worker Pool of its
  own and invokes \<open>terminate()\<close> on it exactly once, whether the call succeeds or
  fails. The pool is created by the constructor of \<open>ImageConverter\<close> and kept in the
  converter; \<open>convertToImages\<close> only hands the pages to it. Two calls one after the
  other on one converter are given to the same worker, which was constructed before the
  first call, and neither call constructs or terminates a worker.
\<close>

theorem convertToImages_shares_pool_counterexample:
  "trace (snd (new_ImageConverter 1 empty_world)) = [NewWorker 0]
   \<and> convertToImages tenfold [] (fst (new_ImageConverter 1 empty_world)) (note_of 2) (Some [1])
       (snd (new_ImageConverter 1 empty_world))
     = (Resolved [10],
        \<lparr>next_worker = 1,
           trace = [NewWorker 0,
                    SetHandlers 0 0, PostMessage 0 (note_of 2) [1], Processed 0]\<rparr>)
   \<and> convertToImages tenfold [] (fst (new_ImageConverter 1 empty_world)) (note_of 2) (Some [2])
       (snd (convertToImages tenfold [] (fst (new_ImageConverter 1 empty_world)) (note_of 2)
               (Some [1]) (snd (new_ImageConverter 1 empty_world))))
     = (Resolved [20],
        \<lparr>next_worker = 1,
           trace = [NewWorker 0,
                    SetHandlers 0 0, PostMessage 0 (note_of 2) [1], Processed 0,
                    SetHandlers 0 0, PostMessage 0 (note_of 2) [2], Processed 0]\<rparr>)"
  by code_simp

text \<open>
  Claim C3, amended. A call of \<open>convertToImages\<close> constructs no worker and terminates
  none: it uses the pool that the constructor of its converter built, and leaves it to
  its caller to terminate it. The three callers in the plugin (\<open>writeImageFiles\<close>,
  \<open>exportToPDF\<close>, \<open>onLoadFile\<close>) each construct a converter for one call, make
  the call inside \<open>try\<close>, and call \<open>converter.terminate()\<close> in the \<open>finally\<close>
  block. At each of them, among the calls made on workers from the construction of the
  converter on, \<open>hardwareConcurrency\<close> workers that did not exist before are
  constructed, each once, whatever becomes of the call; no other worker is constructed or
  terminated; when the call comes back, resolved or rejected, each worker of the pool has
  been terminated exactly once, and as long as the call has not come back none has. The
  next worker constructed anywhere is a new one, so that no later converter shares a
  worker with this one. What is counted is the calls of \<open>terminate\<close> on the workers:
  a call of \<open>terminate()\<close> on a pool that was already emptied makes none (claim C8).
\<close>

theorem pool_lifecycle:
  "filter lifecycle
     (drop (length (trace w))
        (trace (snd (convertToImages respond sched conv note pageNumbers w)))) = []
   \<and> next_worker (snd (convertToImages respond sched conv note pageNumbers w)) = next_worker w
   \<and> (\<forall>site \<in> {writeImageFiles_convert, exportToPDF_convert, onLoadFile_convert}.
         filter lifecycle (drop (length (trace w)) (trace (snd (site respond sched hw sn w))))
           = map NewWorker [next_worker w ..< next_worker w + hw]
             @ (if fst (site respond sched hw sn w) = Pending then []
                else map TerminateWorker [next_worker w ..< next_worker w + hw])
       \<and> next_worker (snd (site respond sched hw sn w)) = next_worker w + hw
       \<and> (\<forall>wk \<in> set [next_worker w ..< next_worker w + hw].
             count_list (drop (length (trace w)) (trace (snd (site respond sched hw sn w))))
               (NewWorker wk) = 1
           \<and> count_list (drop (length (trace w)) (trace (snd (site respond sched hw sn w))))
               (TerminateWorker wk)
             = (if fst (site respond sched hw sn w) = Pending then 0 else 1)))"
proof -
  let ?ids = "[next_worker w ..< next_worker w + hw]"
  let ?site = "writeImageFiles_convert respond sched hw sn w"
  note site = call_site_lifecycle [of w respond sched hw sn]
  from site have events: "filter lifecycle (drop (length (trace w)) (trace (snd ?site)))
         = map NewWorker ?ids @ (if fst ?site = Pending then [] else map TerminateWorker ?ids)"
    by blast
  have d: "distinct ?ids" by simp
  have counts: "count_list (drop (length (trace w)) (trace (snd ?site))) (NewWorker wk) = 1
              \<and> count_list (drop (length (trace w)) (trace (snd ?site))) (TerminateWorker wk)
                = (if fst ?site = Pending then 0 else 1)"
    if "wk \<in> set ?ids" for wk
    by (rule lifecycle_counts [OF events d that])
  from site counts
  have "filter lifecycle (drop (length (trace w)) (trace (snd ?site)))
           = map NewWorker ?ids @ (if fst ?site = Pending then [] else map TerminateWorker ?ids)
       \<and> next_worker (snd ?site) = next_worker w + hw
       \<and> (\<forall>wk \<in> set ?ids.
             count_list (drop (length (trace w)) (trace (snd ?site))) (NewWorker wk) = 1
           \<and> count_list (drop (length (trace w)) (trace (snd ?site))) (TerminateWorker wk)
             = (if fst ?site = Pending then 0 else 1))"
    by blast
  then have sites: "\<forall>site \<in> {writeImageFiles_convert, exportToPDF_convert, onLoadFile_convert}.
         filter lifecycle (drop (length (trace w)) (trace (snd (site respond sched hw sn w))))
           = map NewWorker ?ids
             @ (if fst (site respond sched hw sn w) = Pending then []
                else map TerminateWorker ?ids)
       \<and> next_worker (snd (site respond sched hw sn w)) = next_worker w + hw
       \<and> (\<forall>wk \<in> set ?ids.
             count_list (drop (length (trace w)) (trace (snd (site respond sched hw sn w))))
               (NewWorker wk) = 1
           \<and> count_list (drop (length (trace w)) (trace (snd (site respond sched hw sn w))))
               (TerminateWorker wk)
             = (if fst (site respond sched hw sn w) = Pending then 0 else 1))"
    by (simp add: exportToPDF_convert_eq onLoadFile_convert_eq)
  note call = convertToImages_no_lifecycle [of w respond sched conv "note" pageNumbers]
  show ?thesis
    by (rule conjI [OF conjunct1 [OF call] conjI [OF conjunct2 [OF call] sites]])
qed

theorem pool_lifecycle_witness:
  "fst (writeImageFiles_convert (failing_on 2) [] 2 (note_of 3) empty_world)
     = Rejected (Error ''cannot render'')
   \<and> fst (writeImageFiles_convert tenfold [] 2 (note_of 3) empty_world) = Resolved [10, 20, 30]
   \<and> fst (writeImageFiles_convert (\<lambda>wk note pageNumbers. Silent :: int worker_reply) []
            2 (note_of 3) empty_world) = Pending
   \<and> filter lifecycle
       (drop (length (trace empty_world))
          (trace (snd (writeImageFiles_convert (failing_on 2) [] 2 (note_of 3) empty_world))))
     = [NewWorker 0, NewWorker 1, TerminateWorker 0, TerminateWorker 1]
   \<and> filter lifecycle
       (drop (length (trace empty_world))
          (trace (snd (writeImageFiles_convert tenfold [] 2 (note_of 3) empty_world))))
     = [NewWorker 0, NewWorker 1, TerminateWorker 0, TerminateWorker 1]
   \<and> filter lifecycle
       (drop (length (trace empty_world))
          (trace (snd (writeImageFiles_convert (\<lambda>wk note pageNumbers. Silent :: int worker_reply) []
                         2 (note_of 3) empty_world))))
     = [NewWorker 0, NewWorker 1]
   \<and> count_list
       (drop (length (trace empty_world))
          (trace (snd (writeImageFiles_convert (failing_on 2) [] 2 (note_of 3) empty_world))))
       (TerminateWorker 1) = 1"
proof -
  let ?silent = "\<lambda>wk note pageNumbers. Silent :: int worker_reply"
  have ids: "[next_worker empty_world ..< next_worker empty_world + 2] = [0, 1]"
    by (simp add: empty_world_def upt_rec)
  have site: "writeImageFiles_convert
                \<in> {writeImageFiles_convert, exportToPDF_convert, onLoadFile_convert}"
    by simp
  have wk: "1 \<in> set [next_worker empty_world ..< next_worker empty_world + 2]"
    unfolding ids by simp
  have fail: "fst (writeImageFiles_convert (failing_on 2) [] 2 (note_of 3) empty_world)
               = Rejected (Error ''cannot render'')"
    by code_simp
  have ok: "fst (writeImageFiles_convert tenfold [] 2 (note_of 3) empty_world)
               = Resolved [10, 20, 30]"
    by code_simp
  have waits: "fst (writeImageFiles_convert ?silent [] 2 (note_of 3) empty_world) = Pending"
    by code_simp
  note failing = bspec [OF conjunct2 [OF conjunct2 [OF pool_lifecycle
                       [where respond = "failing_on 2" and sched = "[]" and hw = 2
                          and sn = "note_of 3" and w = empty_world]]] site]
  note rendering = bspec [OF conjunct2 [OF conjunct2 [OF pool_lifecycle
                       [where respond = tenfold and sched = "[]" and hw = 2
                          and sn = "note_of 3" and w = empty_world]]] site]
  note waiting = bspec [OF conjunct2 [OF conjunct2 [OF pool_lifecycle
                       [where respond = ?silent and sched = "[]" and hw = 2
                          and sn = "note_of 3" and w = empty_world]]] site]
  have 1: "filter lifecycle
       (drop (length (trace empty_world))
          (trace (snd (writeImageFiles_convert (failing_on 2) [] 2 (note_of 3) empty_world))))
     = [NewWorker 0, NewWorker 1, TerminateWorker 0, TerminateWorker 1]"
    using conjunct1 [OF failing] unfolding ids fail by simp
  have 2: "filter lifecycle
       (drop (length (trace empty_world))
          (trace (snd (writeImageFiles_convert tenfold [] 2 (note_of 3) empty_world))))
     = [NewWorker 0, NewWorker 1, TerminateWorker 0, TerminateWorker 1]"
    using conjunct1 [OF rendering] unfolding ids ok by simp
  have 3: "filter lifecycle
       (drop (length (trace empty_world))
          (trace (snd (writeImageFiles_convert ?silent [] 2 (note_of 3) empty_world))))
     = [NewWorker 0, NewWorker 1]"
    using conjunct1 [OF waiting] unfolding ids waits by simp
  have 4: "count_list
       (drop (length (trace empty_world))
          (trace (snd (writeImageFiles_convert (failing_on 2) [] 2 (note_of 3) empty_world))))
       (TerminateWorker 1) = 1"
    using conjunct2 [OF bspec [OF conjunct2 [OF conjunct2 [OF failing]] wk]]
    unfolding fail by simp
  from fail ok waits 1 2 3 4 show ?thesis by (intro conjI)
qed

section \<open>C4: a call returns all the images or an error\<close>

text \<open>
  Claim C4 says that for every input the outcome of \<open>convertToImages\<close> is a complete
  result of \<open>len(indices)\<close> images or a single error, and that a call fails when the
  render of one of its chunks fails. The code never compares the number of images of an
  answer with the number of pages of the chunk: with a worker script that answers every
  message with two images, the call for the three pages of a note resolves with two
  images. And the handlers are properties of the worker: on a converter with one worker
  whose script fails on page 1, a call for page 1 followed, before the worker has
  answered, by a call for page 2 leaves the first call, whose chunk fails, without
  outcome, and rejects the second call, whose chunk renders.
\<close>

theorem convertToImages_incomplete_result_counterexample:
  "convertToImages two_images [] (fst (new_ImageConverter 1 empty_world)) (note_of 3) None
     (snd (new_ImageConverter 1 empty_world))
   = (Resolved [99, 99],
      \<lparr>next_worker = 1,
         trace = [NewWorker 0, SetHandlers 0 0, PostMessage 0 (note_of 3) [1, 2, 3],
                  Processed 0]\<rparr>)
   \<and> requested_pages (note_of 3) None = [1, 2, 3]
   \<and> failing_on 1 0 (note_of 2) [1] = Response (Some ''cannot render'') []
   \<and> failing_on 1 0 (note_of 2) [2] = Response None [20]
   \<and> convertToImages_overtaken (failing_on 1) [] (fst (new_ImageConverter 1 empty_world))
        (note_of 2) (Some [1]) (snd (new_ImageConverter 1 empty_world))
        [SetHandlers 0 0, PostMessage 0 (note_of 2) [2]]
      = Pending
   \<and> fst (convertToImages (failing_on 1) [] (fst (new_ImageConverter 1 empty_world))
            (note_of 2) (Some [2])
            (convertToImages_started (fst (new_ImageConverter 1 empty_world)) (note_of 2)
               (Some [1]) (snd (new_ImageConverter 1 empty_world))))
      = Rejected (Error ''cannot render'')"
  by code_simp

text \<open>
  Claim C4, amended. Take a call of \<open>convertToImages\<close> made when the workers of the
  converter are running and none of them has a message left to work through, on a
  converter whose workers are distinct objects. The render of a chunk fails when the
  worker it was sent to raises an error event or answers with a response whose
  \<open>error\<close> is a non-empty string.

  \<^item> If the render of one chunk fails and nothing is called on the converter while the
    call is waiting, the call is rejected and returns no images.
  \<^item> A call that resolves, whatever is called on the converter while it is waiting
    (\<open>later\<close> are the calls made on the workers meanwhile), returns the images of
    the answers to all its chunks, in the order of the chunks, each of them an answer
    without error: never a part of them. It returns \<open>len(indices)\<close> images if the
    workers answer with one image per page, which the code does not check.
  \<^item> A call that is rejected is rejected with the error of one chunk whose render
    failed, or with the \<open>TypeError\<close> of a pool without workers.
  \<^item> When every worker answers every message, the call settles.
\<close>

theorem convertToImages_all_or_nothing:
  assumes pool: "distinct (workers (workerPool conv))"
    and quiet: "idle (workers (workerPool conv)) (trace w)"
  shows "((\<exists>chunks k wk.
             processPages_chunks (requested_pages note pageNumbers)
               (length (workers (workerPool conv))) = Some chunks
           \<and> k < length chunks
           \<and> js_index (workers (workerPool conv))
                (js_mod k (length (workers (workerPool conv)))) = Some wk
           \<and> ((\<exists>m. respond wk note (chunks ! k) = Crash m)
              \<or> (\<exists>m imgs. m \<noteq> [] \<and> respond wk note (chunks ! k) = Response (Some m) imgs)))
          \<longrightarrow> (\<exists>e. fst (convertToImages respond sched conv note pageNumbers w) = Rejected e))
       \<and> (\<forall>later result.
             fst (convertToImages respond sched conv note pageNumbers w) = Resolved result
             \<or> convertToImages_overtaken respond sched conv note pageNumbers w later
                 = Resolved result
             \<longrightarrow> (\<exists>chunks answers.
                    processPages_chunks (requested_pages note pageNumbers)
                      (length (workers (workerPool conv))) = Some chunks
                  \<and> length answers = length chunks
                  \<and> result = concat answers
                  \<and> (\<forall>k < length chunks. \<exists>wk err.
                        js_index (workers (workerPool conv))
                          (js_mod k (length (workers (workerPool conv)))) = Some wk
                      \<and> respond wk note (chunks ! k) = Response err (answers ! k)
                      \<and> (err = None \<or> err = Some [])))
               \<and> ((\<forall>wk pns err imgs.
                      respond wk note pns = Response err imgs \<and> (err = None \<or> err = Some [])
                      \<longrightarrow> length imgs = length pns)
                    \<longrightarrow> length result = length (requested_pages note pageNumbers)))
       \<and> (\<forall>e. fst (convertToImages respond sched conv note pageNumbers w) = Rejected e
             \<longrightarrow> (workers (workerPool conv) = [] \<and> e = TypeError)
               \<or> (\<exists>chunks k wk.
                     processPages_chunks (requested_pages note pageNumbers)
                       (length (workers (workerPool conv))) = Some chunks
                   \<and> k < length chunks
                   \<and> js_index (workers (workerPool conv))
                        (js_mod k (length (workers (workerPool conv)))) = Some wk
                   \<and> ((\<exists>m. respond wk note (chunks ! k) = Crash m \<and> e = ErrorEvent m)
                      \<or> (\<exists>m imgs. m \<noteq> [] \<and> respond wk note (chunks ! k) = Response (Some m) imgs
                                  \<and> e = Error m))))
       \<and> ((\<forall>wk pns. respond wk note pns \<noteq> Silent)
             \<longrightarrow> fst (convertToImages respond sched conv note pageNumbers w) \<noteq> Pending)"
proof -
  let ?ws = "workers (workerPool conv)"
  let ?xs = "requested_pages note pageNumbers"
  let ?chunks = "spec_chunks ((length ?xs + length ?ws - 1) div length ?ws) ?xs"
  let ?ps = "map (\<lambda>(k, chunk). on_reply (respond (?ws ! k) note chunk)) (enumerate 0 ?chunks)"
  let ?out = "fst (convertToImages respond sched conv note pageNumbers w)"
  have empty: "?out = (if ?xs = [] then Resolved [] else Rejected TypeError)" if "?ws = []"
    unfolding convertToImages_def processPages_no_workers [OF that] by simp
  have out: "?out = map_promise concat (promise_all sched ?ps)" if "?ws \<noteq> []"
    unfolding convertToImages_def processPages_outcome [OF pool that quiet] ..
  have chunks: "processPages_chunks ?xs (length ?ws) = Some ?chunks" if "?ws \<noteq> []"
    using that by (intro processPages_chunks_pos) simp
  have le: "length ?chunks \<le> length ?ws" if "?ws \<noteq> []"
    unfolding length_spec_chunks using that by (intro chunk_count_le) simp

  have fails: "\<exists>e. ?out = Rejected e"
    if c: "processPages_chunks ?xs (length ?ws) = Some cs" and k: "k < length cs"
      and wk: "js_index ?ws (js_mod k (length ?ws)) = Some wk"
      and bad: "(\<exists>m. respond wk note (cs ! k) = Crash m)
                \<or> (\<exists>m imgs. m \<noteq> [] \<and> respond wk note (cs ! k) = Response (Some m) imgs)"
    for cs k wk
  proof -
    from wk have ne: "?ws \<noteq> []" by (auto simp: js_mod_def)
    from c chunks [OF ne] have cs: "cs = ?chunks" by simp
    from k cs le [OF ne] have "k < length ?ws" by simp
    from worker_of_chunk [OF this] wk have "wk = ?ws ! k" by simp
    with bad cs have "\<exists>e. on_reply (respond (?ws ! k) note (?chunks ! k)) = Rejected e"
      by (auto simp: on_reply_Rejected)
    then obtain e where "on_reply (respond (?ws ! k) note (?chunks ! k)) = Rejected e" ..
    with k cs have "?ps ! k = Rejected e" by (simp add: nth_enumerate_eq)
    moreover from k cs have "k < length ?ps" by simp
    ultimately have "\<exists>e'. promise_all sched ?ps = Rejected e'"
      by (intro promise_all_rejects)
    then show ?thesis unfolding out [OF ne] by (auto simp: map_promise_Rejected)
  qed

  have complete:
    "(\<exists>cs answers.
        processPages_chunks ?xs (length ?ws) = Some cs
      \<and> length answers = length cs
      \<and> result = concat answers
      \<and> (\<forall>k < length cs. \<exists>wk err.
            js_index ?ws (js_mod k (length ?ws)) = Some wk
          \<and> respond wk note (cs ! k) = Response err (answers ! k)
          \<and> (err = None \<or> err = Some [])))
     \<and> ((\<forall>wk pns err imgs.
            respond wk note pns = Response err imgs \<and> (err = None \<or> err = Some [])
            \<longrightarrow> length imgs = length pns)
          \<longrightarrow> length result = length ?xs)"
    if "processPages_overtaken respond sched (workerPool conv) note ?xs w later = Resolved result"
    for later result
  proof -
    from resolved_answers [OF pool quiet that] obtain cs answers
      where c: "processPages_chunks ?xs (length ?ws) = Some cs"
        and cc: "concat cs = ?xs" and len: "length answers = length cs"
        and res: "result = concat answers"
        and each: "\<forall>k < length cs.
                     js_index ?ws (js_mod k (length ?ws)) = Some (?ws ! k)
                   \<and> (\<exists>err. respond (?ws ! k) note (cs ! k) = Response err (answers ! k)
                          \<and> (err = None \<or> err = Some []))"
      by blast
    have "length result = length ?xs"
      if contract: "\<forall>wk pns err imgs.
                      respond wk note pns = Response err imgs \<and> (err = None \<or> err = Some [])
                      \<longrightarrow> length imgs = length pns"
    proof -
      have "map length answers = map length cs"
      proof (rule nth_equalityI)
        show "length (map length answers) = length (map length cs)" using len by simp
      next
        fix k assume "k < length (map length answers)"
        with len have k: "k < length cs" by simp
        with each obtain err
          where "respond (?ws ! k) note (cs ! k) = Response err (answers ! k)"
            and "err = None \<or> err = Some []"
          by blast
        with contract have "length (answers ! k) = length (cs ! k)" by blast
        with k len show "map length answers ! k = map length cs ! k" by simp
      qed
      then have "length (concat answers) = length (concat cs)"
        by (simp add: length_concat)
      with res cc show ?thesis by simp
    qed
    moreover from each
    have "\<forall>k < length cs. \<exists>wk err.
            js_index ?ws (js_mod k (length ?ws)) = Some wk
          \<and> respond wk note (cs ! k) = Response err (answers ! k)
          \<and> (err = None \<or> err = Some [])"
      by blast
    ultimately show ?thesis using c len res by blast
  qed

  have rejected:
    "(?ws = [] \<and> e = TypeError)
     \<or> (\<exists>cs k wk.
           processPages_chunks ?xs (length ?ws) = Some cs
         \<and> k < length cs
         \<and> js_index ?ws (js_mod k (length ?ws)) = Some wk
         \<and> ((\<exists>m. respond wk note (cs ! k) = Crash m \<and> e = ErrorEvent m)
            \<or> (\<exists>m imgs. m \<noteq> [] \<and> respond wk note (cs ! k) = Response (Some m) imgs
                        \<and> e = Error m)))"
    if r: "?out = Rejected e" for e
  proof (cases "?ws = []")
    case True
    from r show ?thesis unfolding empty [OF True] using True by (simp split: if_splits)
  next
    case False
    from r have "promise_all sched ?ps = Rejected e"
      unfolding out [OF False] by (simp add: map_promise_Rejected)
    from promise_all_Rejected [OF this] obtain k
      where k: "k < length ?chunks" and "?ps ! k = Rejected e" by auto
    then have "on_reply (respond (?ws ! k) note (?chunks ! k)) = Rejected e"
      by (simp add: nth_enumerate_eq)
    then have "(\<exists>m. respond (?ws ! k) note (?chunks ! k) = Crash m \<and> e = ErrorEvent m)
            \<or> (\<exists>m imgs. m \<noteq> [] \<and> respond (?ws ! k) note (?chunks ! k) = Response (Some m) imgs
                        \<and> e = Error m)"
      by (simp add: on_reply_Rejected)
    moreover from k le [OF False] have "k < length ?ws" by simp
    then have "js_index ?ws (js_mod k (length ?ws)) = Some (?ws ! k)"
      by (rule worker_of_chunk)
    ultimately show ?thesis using chunks [OF False] k by blast
  qed

  have settles: "?out \<noteq> Pending" if all: "\<forall>wk pns. respond wk note pns \<noteq> Silent"
  proof (cases "?ws = []")
    case True
    show ?thesis unfolding empty [OF True] by simp
  next
    case False
    from all have "\<forall>p \<in> set ?ps. p \<noteq> Pending"
      by (auto simp: on_reply_Pending)
    then have "promise_all sched ?ps \<noteq> Pending" by (rule promise_all_settles)
    then show ?thesis unfolding out [OF False] by (simp add: map_promise_Pending)
  qed

  have complete':
    "(\<exists>cs answers.
        processPages_chunks ?xs (length ?ws) = Some cs
      \<and> length answers = length cs
      \<and> result = concat answers
      \<and> (\<forall>k < length cs. \<exists>wk err.
            js_index ?ws (js_mod k (length ?ws)) = Some wk
          \<and> respond wk note (cs ! k) = Response err (answers ! k)
          \<and> (err = None \<or> err = Some [])))
     \<and> ((\<forall>wk pns err imgs.
            respond wk note pns = Response err imgs \<and> (err = None \<or> err = Some [])
            \<longrightarrow> length imgs = length pns)
          \<longrightarrow> length result = length ?xs)"
    if "?out = Resolved result
        \<or> convertToImages_overtaken respond sched conv note pageNumbers w later = Resolved result"
    for later result
  proof -
    from that consider
        "processPages_overtaken respond sched (workerPool conv) note ?xs w [] = Resolved result"
      | "processPages_overtaken respond sched (workerPool conv) note ?xs w later = Resolved result"
      unfolding convertToImages_def convertToImages_overtaken_def processPages_not_overtaken
      by blast
    then show ?thesis
    proof cases
      case 1
      then show ?thesis by (rule complete)
    next
      case 2
      then show ?thesis by (rule complete)
    qed
  qed

  have a: "(\<exists>cs k wk.
             processPages_chunks ?xs (length ?ws) = Some cs
           \<and> k < length cs
           \<and> js_index ?ws (js_mod k (length ?ws)) = Some wk
           \<and> ((\<exists>m. respond wk note (cs ! k) = Crash m)
              \<or> (\<exists>m imgs. m \<noteq> [] \<and> respond wk note (cs ! k) = Response (Some m) imgs)))
          \<longrightarrow> (\<exists>e. ?out = Rejected e)"
    using fails by blast
  have b: "\<forall>later result.
             ?out = Resolved result
             \<or> convertToImages_overtaken respond sched conv note pageNumbers w later
                 = Resolved result
             \<longrightarrow> (\<exists>cs answers.
                    processPages_chunks ?xs (length ?ws) = Some cs
                  \<and> length answers = length cs
                  \<and> result = concat answers
                  \<and> (\<forall>k < length cs. \<exists>wk err.
                        js_index ?ws (js_mod k (length ?ws)) = Some wk
                      \<and> respond wk note (cs ! k) = Response err (answers ! k)
                      \<and> (err = None \<or> err = Some [])))
               \<and> ((\<forall>wk pns err imgs.
                      respond wk note pns = Response err imgs \<and> (err = None \<or> err = Some [])
                      \<longrightarrow> length imgs = length pns)
                    \<longrightarrow> length result = length ?xs)"
    by (intro allI impI) (rule complete')
  have c: "\<forall>e. ?out = Rejected e
             \<longrightarrow> (?ws = [] \<and> e = TypeError)
               \<or> (\<exists>cs k wk.
                     processPages_chunks ?xs (length ?ws) = Some cs
                   \<and> k < length cs
                   \<and> js_index ?ws (js_mod k (length ?ws)) = Some wk
                   \<and> ((\<exists>m. respond wk note (cs ! k) = Crash m \<and> e = ErrorEvent m)
                      \<or> (\<exists>m imgs. m \<noteq> [] \<and> respond wk note (cs ! k) = Response (Some m) imgs
                                  \<and> e = Error m)))"
    by (intro allI impI) (rule rejected)
  have d: "(\<forall>wk pns. respond wk note pns \<noteq> Silent) \<longrightarrow> ?out \<noteq> Pending"
    by (intro impI) (rule settles)
  show ?thesis
    by (rule conjI [OF a conjI [OF b conjI [OF c d]]])
qed

theorem convertToImages_all_or_nothing_witness:
  "distinct (workers (workerPool (fst (new_ImageConverter 2 empty_world))))
   \<and> idle (workers (workerPool (fst (new_ImageConverter 2 empty_world))))
        (trace (snd (new_ImageConverter 2 empty_world)))
   \<and> processPages_chunks (requested_pages (note_of 3) None)
        (length (workers (workerPool (fst (new_ImageConverter 2 empty_world))))) = Some [[1, 2], [3]]
   \<and> js_index (workers (workerPool (fst (new_ImageConverter 2 empty_world))))
        (js_mod 0 (length (workers (workerPool (fst (new_ImageConverter 2 empty_world)))))) = Some 0
   \<and> failing_on 2 0 (note_of 3) ([[1, 2], [3]] ! 0) = Response (Some ''cannot render'') []
   \<and> (\<exists>e. fst (convertToImages (failing_on 2) [] (fst (new_ImageConverter 2 empty_world))
                 (note_of 3) None (snd (new_ImageConverter 2 empty_world))) = Rejected e)
   \<and> fst (convertToImages (failing_on 2) [] (fst (new_ImageConverter 2 empty_world))
            (note_of 3) None (snd (new_ImageConverter 2 empty_world)))
       = Rejected (Error ''cannot render'')"
proof -
  let ?conv = "fst (new_ImageConverter 2 empty_world)"
  let ?w1 = "snd (new_ImageConverter 2 empty_world)"
  have pool: "distinct (workers (workerPool ?conv))"
    by (simp add: new_ImageConverter_pool new_WorkerPool_distinct)
  have quiet: "idle (workers (workerPool ?conv)) (trace ?w1)"
    by code_simp
  have chunks: "processPages_chunks (requested_pages (note_of 3) None)
                  (length (workers (workerPool ?conv))) = Some [[1, 2], [3]]"
    by code_simp
  have worker: "js_index (workers (workerPool ?conv))
                  (js_mod 0 (length (workers (workerPool ?conv)))) = Some 0"
    by code_simp
  have reply: "failing_on 2 0 (note_of 3) ([[1, 2], [3]] ! 0) = Response (Some ''cannot render'') []"
    by (simp add: failing_on_def)
  have out: "fst (convertToImages (failing_on 2) [] ?conv (note_of 3) None ?w1)
               = Rejected (Error ''cannot render'')"
    by code_simp
  have "(0::nat) < length [[1, 2], [3 :: int]]" and "''cannot render'' \<noteq> []" by simp_all
  with chunks worker reply
    convertToImages_all_or_nothing
      [where respond = "failing_on 2" and sched = "[]" and pageNumbers = None, OF pool quiet,
       of "note_of 3"]
  have "\<exists>e. fst (convertToImages (failing_on 2) [] ?conv (note_of 3) None ?w1) = Rejected e"
    by blast
  with pool quiet chunks worker reply out show ?thesis by blast
qed

section \<open>C5: \<open>processPages\<close> after \<open>terminate\<close>\<close>

text \<open>
  Claim C5 says that after \<open>terminate()\<close> every \<open>processPages\<close> call fails with a
  "pool terminated" condition and never silently returns an empty result. The code keeps
  no record of the termination other than the empty worker list: a call with an empty
  list of page indices resolves with an empty result.
\<close>

theorem processPages_after_terminate_counterexample:
  "fst (processPages tenfold []
          (fst (WorkerPool_terminate (fst (new_WorkerPool 2 empty_world))
                  (snd (new_WorkerPool 2 empty_world))))
          (note_of 3) []
          (snd (WorkerPool_terminate (fst (new_WorkerPool 2 empty_world))
                  (snd (new_WorkerPool 2 empty_world)))))
     = Resolved []"
  by code_simp

text \<open>
  Claim C5, amended. After \<open>terminate()\<close> a \<open>processPages\<close> call dispatches no work
  and does not hang: with a non-empty list of page indices it is rejected, with the
  \<open>TypeError\<close> of installing a handler on the \<open>undefined\<close> worker (there is no
  error of its own for a terminated pool); with an empty list it resolves with an empty
  result. In both cases the world is left as it was.
\<close>

theorem processPages_after_terminate:
  "processPages respond sched (fst (WorkerPool_terminate pool w0)) note indices w
     = (if indices = [] then Resolved [] else Rejected TypeError, w)"
  by (rule processPages_no_workers) (simp add: WorkerPool_terminate_def)

section \<open>C6: page indices are not validated\<close>

text \<open>
  Claim C6 says that a call with a page index outside \<open>1..len(pages)\<close> fails with an
  \<open>InvalidPageIndex\<close> error before anything is dispatched. The code never compares
  an index with the number of pages: for a note of one page and the request \<open>[5]\<close>,
  made on a converter that was just constructed, the chunk \<open>[5]\<close> is posted to
  worker 0 and the call resolves with what the worker answers.
\<close>

theorem convertToImages_invalid_index_counterexample:
  "convertToImages tenfold [] (fst (new_ImageConverter 1 empty_world)) (note_of 1) (Some [5])
     (snd (new_ImageConverter 1 empty_world))
   = (Resolved [50],
      \<lparr>next_worker = 1,
         trace = [NewWorker 0, SetHandlers 0 0, PostMessage 0 (note_of 1) [5], Processed 0]\<rparr>)"
  by code_simp

text \<open>
  Claim C6, amended. \<open>convertToImages\<close> does not validate page indices. On a pool with
  at least one worker, every requested index, in range or not, is posted to a worker:
  the page lists of the messages of the call, in order, make up the request. When the
  call is made while the workers of the converter are running and none of them has a
  message left to work through, its outcome depends on the answers of the workers alone: when every worker answers every
  message with a response without error the call resolves, and an error that rejects
  the call is the error event that a worker raised or the non-empty \<open>error\<close> of a
  worker's response; there is no \<open>InvalidPageIndex\<close> error.
\<close>

theorem convertToImages_no_index_validation:
  assumes pool: "distinct (workers (workerPool conv))" and ne: "workers (workerPool conv) \<noteq> []"
    and quiet: "idle (workers (workerPool conv)) (trace w)"
  shows "concat (posted_pages
           (drop (length (trace w))
              (trace (snd (convertToImages respond sched conv note pageNumbers w)))))
           = requested_pages note pageNumbers
       \<and> ((\<forall>wk pns. \<exists>err imgs. respond wk note pns = Response err imgs
                                \<and> (err = None \<or> err = Some []))
            \<longrightarrow> (\<exists>imgs. fst (convertToImages respond sched conv note pageNumbers w) = Resolved imgs))
       \<and> (\<forall>e. fst (convertToImages respond sched conv note pageNumbers w) = Rejected e
            \<longrightarrow> (\<exists>wk pns.
                    (\<exists>m. respond wk note pns = Crash m \<and> e = ErrorEvent m)
                  \<or> (\<exists>m imgs. m \<noteq> [] \<and> respond wk note pns = Response (Some m) imgs
                              \<and> e = Error m)))"
proof -
  let ?ws = "workers (workerPool conv)"
  let ?xs = "requested_pages note pageNumbers"
  let ?chunks = "spec_chunks ((length ?xs + length ?ws - 1) div length ?ws) ?xs"
  let ?ps = "map (\<lambda>(k, chunk). on_reply (respond (?ws ! k) note chunk)) (enumerate 0 ?chunks)"
  from ne have p: "0 < length ?ws" by simp
  have out: "fst (convertToImages respond sched conv note pageNumbers w)
               = map_promise concat (promise_all sched ?ps)"
    unfolding convertToImages_def processPages_outcome [OF pool ne quiet] ..
  have posted: "concat (posted_pages
           (drop (length (trace w))
              (trace (snd (convertToImages respond sched conv note pageNumbers w))))) = ?xs"
  proof -
    from events_of_call [OF ne, of w respond sched "note" ?xs] obtain finished
      where evs: "drop (length (trace w))
                    (trace (snd (processPages respond sched (workerPool conv) note ?xs w)))
                  = concat (map (\<lambda>(k, chunk). [SetHandlers (?ws ! k) k,
                                                PostMessage (?ws ! k) note chunk])
                                (enumerate 0 ?chunks)) @ finished"
        and fin: "\<forall>e \<in> set finished. \<exists>wk. e = Processed wk"
      by blast
    show ?thesis
      unfolding convertToImages_def evs posted_pages_append only_Processed(3) [OF fin]
        posted_pages_dispatched [of "\<lambda>k. ?ws ! k"]
      by (simp only: map_snd_enumerate concat_chunks_of_pool [OF p] append_Nil2)
  qed
  have resolves: "\<exists>imgs. map_promise concat (promise_all sched ?ps) = Resolved imgs"
    if all: "\<forall>wk pns. \<exists>err imgs. respond wk note pns = Response err imgs
                               \<and> (err = None \<or> err = Some [])"
  proof -
    have "\<exists>imgs. on_reply (respond wk note pns) = Resolved imgs" for wk pns
      using all unfolding on_reply_Resolved by blast
    then have "\<forall>q \<in> set ?ps. \<exists>imgs. q = Resolved imgs"
      by auto
    then have np: "\<forall>q \<in> set ?ps. q \<noteq> Pending" and nr: "\<forall>q \<in> set ?ps. \<forall>e. q \<noteq> Rejected e"
      by auto
    from np have "promise_all sched ?ps \<noteq> Pending" by (rule promise_all_settles)
    moreover have "promise_all sched ?ps \<noteq> Rejected e" for e
    proof
      assume "promise_all sched ?ps = Rejected e"
      from promise_all_Rejected [OF this] nr show False
        by (metis nth_mem)
    qed
    ultimately obtain vs where "promise_all sched ?ps = Resolved vs"
      by (cases "promise_all sched ?ps") auto
    then show ?thesis by simp
  qed
  have rejected: "\<exists>wk pns.
                    (\<exists>m. respond wk note pns = Crash m \<and> e = ErrorEvent m)
                  \<or> (\<exists>m imgs. m \<noteq> [] \<and> respond wk note pns = Response (Some m) imgs
                              \<and> e = Error m)"
    if "map_promise concat (promise_all sched ?ps) = Rejected e" for e
  proof -
    from that have "promise_all sched ?ps = Rejected e" by (simp add: map_promise_Rejected)
    from promise_all_Rejected [OF this] obtain k
      where k: "k < length ?chunks" and "?ps ! k = Rejected e" by auto
    then have "on_reply (respond (?ws ! k) note (?chunks ! k)) = Rejected e"
      by (simp add: nth_enumerate_eq)
    then have "(\<exists>m. respond (?ws ! k) note (?chunks ! k) = Crash m \<and> e = ErrorEvent m)
             \<or> (\<exists>m imgs. m \<noteq> [] \<and> respond (?ws ! k) note (?chunks ! k) = Response (Some m) imgs
                         \<and> e = Error m)"
      by (simp add: on_reply_Rejected)
    then show ?thesis by blast
  qed
  show ?thesis unfolding out using posted [unfolded out] resolves rejected by blast
qed

theorem convertToImages_no_index_validation_witness:
  "distinct (workers (workerPool (fst (new_ImageConverter 1 empty_world))))
   \<and> workers (workerPool (fst (new_ImageConverter 1 empty_world))) \<noteq> []
   \<and> idle (workers (workerPool (fst (new_ImageConverter 1 empty_world))))
        (trace (snd (new_ImageConverter 1 empty_world)))
   \<and> concat (posted_pages
        (drop (length (trace (snd (new_ImageConverter 1 empty_world))))
           (trace (snd (convertToImages tenfold [] (fst (new_ImageConverter 1 empty_world))
                          (note_of 1) (Some [5]) (snd (new_ImageConverter 1 empty_world)))))))
       = requested_pages (note_of 1) (Some [5])
   \<and> requested_pages (note_of 1) (Some [5]) = [5]
   \<and> (\<exists>imgs. fst (convertToImages tenfold [] (fst (new_ImageConverter 1 empty_world))
                    (note_of 1) (Some [5]) (snd (new_ImageConverter 1 empty_world)))
               = Resolved imgs)"
proof -
  let ?conv = "fst (new_ImageConverter 1 empty_world)"
  let ?w1 = "snd (new_ImageConverter 1 empty_world)"
  have pool: "distinct (workers (workerPool ?conv))"
    by (simp add: new_ImageConverter_pool new_WorkerPool_distinct)
  have ne: "workers (workerPool ?conv) \<noteq> []"
    by (simp add: new_ImageConverter_pool new_WorkerPool_workers)
  have quiet: "idle (workers (workerPool ?conv)) (trace ?w1)"
    by code_simp
  have req: "requested_pages (note_of 1) (Some [5]) = [5]"
    by (simp add: requested_pages_def)
  have answers: "\<forall>wk pns. \<exists>err imgs. tenfold wk (note_of 1) pns = Response err imgs
                                   \<and> (err = None \<or> err = Some [])"
    by (simp add: tenfold_def)
  note inst = convertToImages_no_index_validation
         [where respond = tenfold and sched = "[]" and pageNumbers = "Some [5]",
          OF pool ne quiet, of "note_of 1"]
  from inst
  have "concat (posted_pages
          (drop (length (trace ?w1))
             (trace (snd (convertToImages tenfold [] ?conv (note_of 1) (Some [5]) ?w1)))))
        = requested_pages (note_of 1) (Some [5])"
    by blast
  moreover from inst answers
  have "\<exists>imgs. fst (convertToImages tenfold [] ?conv (note_of 1) (Some [5]) ?w1) = Resolved imgs"
    by blast
  ultimately show ?thesis using pool ne quiet req by blast
qed

section \<open>C7: an empty request\<close>

text \<open>
  Claim C7 says that for an empty set of page indices no Worker Unit is constructed for
  the call. The workers of a pool are constructed by its constructor, all of them and
  before any page is looked at: where \<open>writeImageFiles\<close> converts a note without
  pages on a machine with \<open>hardwareConcurrency = 4\<close>, four workers are constructed
  for the call, and terminated after it.
\<close>

theorem zero_pages_constructs_workers_counterexample:
  "writeImageFiles_convert tenfold [] 4 (note_of 0) empty_world
   = (Resolved [],
      \<lparr>next_worker = 4,
         trace = [NewWorker 0, NewWorker 1, NewWorker 2, NewWorker 3,
                  TerminateWorker 0, TerminateWorker 1, TerminateWorker 2, TerminateWorker 3]\<rparr>)"
  by code_simp

text \<open>
  Claim C7, amended. For an empty list of page indices, and so for a note without pages
  when no list is given, \<open>convertToImages\<close> resolves with no image; the chunking step
  gives no chunk, nothing is dispatched, and the call itself makes no call on any worker:
  the world after the call is the world before it. The Worker Units of the pool, however,
  are constructed whatever the request is: the constructor builds \<open>maxWorkers\<close> of
  them, and a call site that converts a note without pages constructs
  \<open>hardwareConcurrency\<close> workers, gets the empty result and terminates the workers.
\<close>

theorem empty_request:
  "convertToImages respond sched conv note (Some []) w = (Resolved [], w)
   \<and> (pages note = [] \<longrightarrow> convertToImages respond sched conv note None w = (Resolved [], w))
   \<and> processPages_chunks (requested_pages note (Some [])) (length (workers (workerPool conv))) = Some []
   \<and> dispatch (workers (workerPool conv)) note [] = []
   \<and> trace (snd (new_ImageConverter n w))
       = trace w @ map NewWorker [next_worker w ..< next_worker w + n]
   \<and> (pages sn = [] \<longrightarrow>
        writeImageFiles_convert respond sched hw sn w =
          (Resolved [],
           w\<lparr>next_worker := next_worker w + hw,
              trace := trace w @ map NewWorker [next_worker w ..< next_worker w + hw]
                       @ map TerminateWorker [next_worker w ..< next_worker w + hw]\<rparr>))"
proof -
  have chunks: "processPages_chunks ([] :: int list) p = Some []" for p
    by (simp add: processPages_chunks_def chunk_loop.simps)
  have built: "trace (snd (new_ImageConverter n w))
                 = trace w @ map NewWorker [next_worker w ..< next_worker w + n]"
    by (simp add: new_ImageConverter_def new_WorkerPool_def Let_def)
  show ?thesis
    using chunks built
    by (simp add: requested_pages_def dispatch_def convertToImages_Nil call_site_zero_pages)
qed

theorem empty_request_witness:
  "pages (note_of 0) = []
   \<and> convertToImages tenfold [] (fst (new_ImageConverter 4 empty_world)) (note_of 0) None
        (snd (new_ImageConverter 4 empty_world))
       = (Resolved [], snd (new_ImageConverter 4 empty_world))
   \<and> trace (snd (new_ImageConverter 4 empty_world))
       = [NewWorker 0, NewWorker 1, NewWorker 2, NewWorker 3]"
proof -
  have h: "pages (note_of 0) = []" by (simp add: note_of_def)
  have t: "trace (snd (new_ImageConverter 4 empty_world))
             = ([NewWorker 0, NewWorker 1, NewWorker 2, NewWorker 3] :: unit event list)"
    by code_simp
  from h empty_request
         [of tenfold "[]" "fst (new_ImageConverter 4 empty_world)" "note_of 0"
             "snd (new_ImageConverter 4 empty_world)"]
  have "convertToImages tenfold [] (fst (new_ImageConverter 4 empty_world)) (note_of 0) None
          (snd (new_ImageConverter 4 empty_world))
        = (Resolved [], snd (new_ImageConverter 4 empty_world))"
    by blast
  with h t show ?thesis by blast
qed

section \<open>C8: \<open>terminate\<close> can be called any number of times\<close>

text \<open>
  Claim C8. \<open>terminate()\<close> has no failing branch: it is a total function of the pool
  and the world, on any pool, also one that never received work. However many times it
  is called in a row (\<open>n + 1\<close> times here), the pool then holds no worker, and the calls
  together have terminated each worker the pool held exactly once, in the first call;
  the later calls do nothing.
\<close>

theorem terminate_any_number_of_times:
  "workers (fst ((case_prod WorkerPool_terminate ^^ Suc n) (pool, w))) = []
   \<and> trace (snd ((case_prod WorkerPool_terminate ^^ Suc n) (pool, w)))
       = trace w @ map TerminateWorker (workers pool)
   \<and> workers (fst ((case_prod WorkerPool_terminate ^^ Suc n) (fst (new_WorkerPool m w), snd (new_WorkerPool m w)))) = []"
  unfolding WorkerPool_terminate_repeat by simp

section \<open>C9: one chunk per worker and call\<close>

text \<open>
  Claim C9. In a call of \<open>processPages\<close> on a pool that was not terminated (it has
  \<open>poolSize \<ge> 1\<close> workers, distinct as the constructor makes them), the number of
  chunks is \<open>ceil (n / ceil (n / poolSize))\<close> for \<open>n\<close> page indices and is at most
  \<open>poolSize\<close>; the round-robin positions \<open>k mod poolSize\<close> of the chunks are
  pairwise distinct; so among the calls that \<open>processPages\<close> makes on the workers,
  every worker has its handlers installed at most once and is posted at most one
  message: no handler is replaced while an earlier chunk of the call waits for it.
\<close>

theorem one_chunk_per_worker_and_call:
  assumes "distinct (workers pool)" and "workers pool \<noteq> []"
  shows "\<exists>chunks.
           processPages_chunks indices (length (workers pool)) = Some chunks
         \<and> length chunks =
             (length indices + (length indices + length (workers pool) - 1) div length (workers pool) - 1)
               div ((length indices + length (workers pool) - 1) div length (workers pool))
         \<and> length chunks \<le> length (workers pool)
         \<and> inj_on (\<lambda>k. k mod length (workers pool)) {..<length chunks}
         \<and> (\<forall>wk.
               length (installed wk
                 (drop (length (trace w))
                    (trace (snd (processPages respond sched pool note indices w))))) \<le> 1
             \<and> length (inbox wk
                 (drop (length (trace w))
                    (trace (snd (processPages respond sched pool note indices w))))) \<le> 1)"
proof -
  let ?ws = "workers pool"
  let ?c = "(length indices + length ?ws - 1) div length ?ws"
  let ?chunks = "spec_chunks ?c indices"
  from assms(2) have p: "0 < length ?ws" by simp
  have chunks: "processPages_chunks indices (length ?ws) = Some ?chunks"
    by (rule processPages_chunks_pos [OF p])
  have count: "length ?chunks = (length indices + ?c - 1) div ?c"
    by (rule length_spec_chunks)
  have le: "length ?chunks \<le> length ?ws"
    unfolding length_spec_chunks by (rule chunk_count_le [OF p])
  have inj: "inj_on (\<lambda>k. k mod length ?ws) {..<length ?chunks}"
    by (rule mod_inj_on_below [OF le])
  have once: "length (installed wk
                 (drop (length (trace w))
                    (trace (snd (processPages respond sched pool note indices w))))) \<le> 1
            \<and> length (inbox wk
                 (drop (length (trace w))
                    (trace (snd (processPages respond sched pool note indices w))))) \<le> 1" for wk
  proof -
    from events_of_call [OF assms(2), of w respond sched "note" indices] obtain finished
      where evs: "drop (length (trace w))
                    (trace (snd (processPages respond sched pool note indices w)))
                  = concat (map (\<lambda>(k, chunk). [SetHandlers (?ws ! k) k,
                                                PostMessage (?ws ! k) note chunk])
                                (enumerate 0 ?chunks)) @ finished"
        and fin: "\<forall>e \<in> set finished. \<exists>wk. e = Processed wk"
      by blast
    show ?thesis
      unfolding evs installed_append inbox_append
        only_Processed(1) [OF fin] only_Processed(2) [OF fin]
        installed_dispatched [of wk "\<lambda>k. ?ws ! k"] inbox_dispatched [of wk "\<lambda>k. ?ws ! k"]
      using one_chunk_per_worker [OF assms(1) le, of wk] by simp
  qed
  from chunks count le inj once show ?thesis by blast
qed

theorem one_chunk_per_worker_and_call_witness:
  "distinct (workers (fst (new_WorkerPool 4 empty_world)))
   \<and> workers (fst (new_WorkerPool 4 empty_world)) \<noteq> []
   \<and> (\<exists>chunks.
         processPages_chunks [1, 2, 3, 4, 5, 6, 7 :: int]
           (length (workers (fst (new_WorkerPool 4 empty_world)))) = Some chunks
       \<and> length chunks \<le> length (workers (fst (new_WorkerPool 4 empty_world)))
       \<and> (\<forall>wk.
             length (installed wk
               (drop (length (trace (snd (new_WorkerPool 4 empty_world))))
                  (trace (snd (processPages tenfold [] (fst (new_WorkerPool 4 empty_world))
                                 (note_of 7) [1, 2, 3, 4, 5, 6, 7]
                                 (snd (new_WorkerPool 4 empty_world))))))) \<le> 1))"
proof -
  let ?pool = "fst (new_WorkerPool 4 empty_world)"
  let ?w1 = "snd (new_WorkerPool 4 empty_world)"
  have d: "distinct (workers ?pool)" by (rule new_WorkerPool_distinct)
  have ne: "workers ?pool \<noteq> []" by (simp add: new_WorkerPool_workers)
  from one_chunk_per_worker_and_call
         [OF d ne, of "[1, 2, 3, 4, 5, 6, 7]" ?w1 tenfold "[]" "note_of 7"]
  have "\<exists>chunks.
         processPages_chunks [1, 2, 3, 4, 5, 6, 7 :: int] (length (workers ?pool)) = Some chunks
       \<and> length chunks \<le> length (workers ?pool)
       \<and> (\<forall>wk.
             length (installed wk
               (drop (length (trace ?w1))
                  (trace (snd (processPages tenfold [] ?pool (note_of 7) [1, 2, 3, 4, 5, 6, 7] ?w1)))))
               \<le> 1)"
    by blast
  with d ne show ?thesis by blast
qed

section \<open>C10: the worker lookup is in bounds and the chunking loop ends\<close>



end
